theory Spec2Isabelle
  imports Main
begin

section \<open>Data model of trace.cpp\<close>

text \<open>
  \<^verbatim>\<open>struct Contact { int rowid; int identifier; int t; }\<close>.  The field
  \<^verbatim>\<open>identifier\<close> is called \<open>ident\<close> here (the word is reserved), and \<^verbatim>\<open>t\<close> is called
  \<open>timestamp\<close>, since a one-letter constant would capture every variable of that name.  The C ints are only compared, or incremented by one below the number of
  rows or nodes, so they are modelled as unbounded integers.
\<close>

record Contact =
  rowid :: int
  ident :: int
  timestamp :: int

type_synonym Contacts = "Contact list"

text \<open>
  \<^verbatim>\<open>std::map<int, V>\<close> is an association list whose keys ascend strictly: iterating it
  visits the keys in ascending order, as the C++ iterator does.
  \<^verbatim>\<open>std::vector<std::map<int, Contacts> >\<close> is a list of such maps.
\<close>

type_synonym 'v intmap = "(int \<times> 'v) list"
type_synonym Lookup = "Contacts intmap list"

datatype error = RfError string | LengthError | UndefinedBehaviour

text \<open>\<^verbatim>\<open>v[i]\<close> on a vector: outside the range the C++ is undefined, here \<open>None\<close>.\<close>

definition vec_at :: "'a list \<Rightarrow> int \<Rightarrow> 'a option" where
  "vec_at v i = (if 0 \<le> i \<and> i < int (length v) then Some (v ! nat i) else None)"

text \<open>\<^verbatim>\<open>m.find(k)\<close> is \<open>map_of m k\<close>; \<^verbatim>\<open>m[k] = v\<close> keeps the keys ascending.\<close>

fun map_set :: "int \<Rightarrow> 'v \<Rightarrow> 'v intmap \<Rightarrow> 'v intmap" where
  "map_set k v [] = [(k, v)]"
| "map_set k v ((k', v') # m) =
     (if k = k' then (k', v) # m
      else if k < k' then (k, v) # (k', v') # m
      else (k', v') # map_set k v m)"

text \<open>\<^verbatim>\<open>m[k].push_back(c)\<close>: \<^verbatim>\<open>operator[]\<close> creates an empty bucket for a new key.\<close>

definition push_back_at :: "int \<Rightarrow> Contact \<Rightarrow> Contacts intmap \<Rightarrow> Contacts intmap" where
  "push_back_at k c m = map_set k ((case map_of m k of None \<Rightarrow> [] | Some cs \<Rightarrow> cs) @ [c]) m"

subsection \<open>CompareContact and the two binary searches\<close>

definition CompareContact_ct :: "Contact \<Rightarrow> int \<Rightarrow> bool" where
  "CompareContact_ct c x = (timestamp c < x)"

definition CompareContact_tc :: "int \<Rightarrow> Contact \<Rightarrow> bool" where
  "CompareContact_tc x c = (x < timestamp c)"

text \<open>
  \<^verbatim>\<open>std::lower_bound(first, last, val, comp)\<close> and \<^verbatim>\<open>std::upper_bound\<close> are the
  standard library's bisection (as in libstdc++ and libc++):
  \<^verbatim>\<open>
  len = last - first;
  while (len > 0) {
    half = len >> 1; middle = first + half;
    if (comp(*middle, val)) { first = middle + 1; len = len - half - 1; }
    else len = half;
  }
  return first;
  \<close>
  and for the upper bound the test is \<^verbatim>\<open>comp(val, *middle)\<close> with the branches swapped.
  Iterators are positions in the bucket; \<open>middle < first + len \<le> length cs\<close> at every read.
\<close>

function lower_bound_loop :: "Contacts \<Rightarrow> nat \<Rightarrow> nat \<Rightarrow> int \<Rightarrow> nat" where
  "lower_bound_loop cs first len val =
     (if 0 < len then
        (let half = len div 2; middle = first + half in
         if CompareContact_ct (cs ! middle) val
         then lower_bound_loop cs (middle + 1) (len - half - 1) val
         else lower_bound_loop cs first half val)
      else first)"
  by pat_completeness auto
termination
  by (relation "measure (\<lambda>(cs, first, len, val). len)") auto

function upper_bound_loop :: "Contacts \<Rightarrow> nat \<Rightarrow> nat \<Rightarrow> int \<Rightarrow> nat" where
  "upper_bound_loop cs first len val =
     (if 0 < len then
        (let half = len div 2; middle = first + half in
         if CompareContact_tc val (cs ! middle)
         then upper_bound_loop cs first half val
         else upper_bound_loop cs (middle + 1) (len - half - 1) val)
      else first)"
  by pat_completeness auto
termination
  by (relation "measure (\<lambda>(cs, first, len, val). len)") auto

declare lower_bound_loop.simps [simp del] upper_bound_loop.simps [simp del]

definition lower_bound :: "Contacts \<Rightarrow> nat \<Rightarrow> nat \<Rightarrow> int \<Rightarrow> nat" where
  "lower_bound cs first lst val = lower_bound_loop cs first (lst - first) val"

definition upper_bound :: "Contacts \<Rightarrow> nat \<Rightarrow> nat \<Rightarrow> int \<Rightarrow> nat" where
  "upper_bound cs first lst val = upper_bound_loop cs first (lst - first) val"

text \<open>
  The test \<^verbatim>\<open>t_begin != it->second.end() && t_begin->t <= tEnd\<close> that all four
  scans of a bucket make, with \<open>p\<close> the position \<^verbatim>\<open>t_begin\<close>.
\<close>

definition in_window :: "Contacts \<Rightarrow> nat \<Rightarrow> int \<Rightarrow> bool" where
  "in_window cs p tEnd = (p \<noteq> length cs \<and> timestamp (cs ! p) \<le> tEnd)"

text \<open>
  The window \<^verbatim>\<open>(t0, t1)\<close> of the recursive call.  \<open>q\<close> is the position \<^verbatim>\<open>t_end\<close>;
  \<^verbatim>\<open>(t_end-1)->t\<close> reads position \<open>q - 1\<close>, and \<open>p < q\<close> whenever the test above holds
  (lemma \<open>upper_bound_after\<close>), so the subtraction never truncates there.
\<close>

definition next_window :: "Contacts \<Rightarrow> nat \<Rightarrow> int \<Rightarrow> int \<Rightarrow> bool \<Rightarrow> int \<times> int" where
  "next_window cs p tBegin tEnd ingoing =
     (if ingoing then
        (let q = upper_bound cs p (length cs) tEnd in (tBegin, timestamp (cs ! (q - 1))))
      else (timestamp (cs ! p), tEnd))"

section \<open>buildContactsLookup\<close>

text \<open>
  Modelled from the spec: \<^verbatim>\<open>R_orderVector\<close> belongs to the R runtime, not to this
  repository.  The spec has it order the rows by timestamp with a stable sort (ties keep
  their original relative order); the result is the list of zero-based row numbers.
\<close>

definition R_orderVector :: "int list \<Rightarrow> nat list" where
  "R_orderVector ts = sort_key (\<lambda>j. ts ! j) [0..<length ts]"

text \<open>
  The body of the \<^verbatim>\<open>for\<close> loop for one row \<open>j\<close>.  Reading \<^verbatim>\<open>ptr_src[j]\<close> or
  \<^verbatim>\<open>ptr_dst[j]\<close> past the end of a shorter array, and indexing either lookup vector
  outside \<open>[0, numberOfIdentifiers)\<close>, are undefined in the C++ and \<open>None\<close> here.
\<close>

definition build_step :: "int list \<Rightarrow> int list \<Rightarrow> int list \<Rightarrow> nat \<Rightarrow> Lookup \<times> Lookup
    \<Rightarrow> (Lookup \<times> Lookup) option" where
  "build_step src dst ts j io =
     (if j < length src \<and> j < length dst then
        (let zb_src = src ! j - 1; zb_dst = dst ! j - 1 in
         case vec_at (fst io) zb_dst of None \<Rightarrow> None
         | Some mi \<Rightarrow>
           (case vec_at (snd io) zb_src of None \<Rightarrow> None
            | Some mo \<Rightarrow>
              Some ((fst io)[nat zb_dst := push_back_at zb_src
                       \<lparr>rowid = int j, ident = zb_src, timestamp = ts ! j\<rparr> mi],
                    (snd io)[nat zb_src := push_back_at zb_dst
                       \<lparr>rowid = int j, ident = zb_dst, timestamp = ts ! j\<rparr> mo])))
      else None)"

fun build_loop :: "int list \<Rightarrow> int list \<Rightarrow> int list \<Rightarrow> nat list \<Rightarrow> Lookup \<times> Lookup
    \<Rightarrow> (Lookup \<times> Lookup) option" where
  "build_loop src dst ts [] io = Some io"
| "build_loop src dst ts (j # js) io =
     (case build_step src dst ts j io of None \<Rightarrow> None
      | Some io' \<Rightarrow> build_loop src dst ts js io')"

text \<open>
  \<open>malloc_ok\<close> says whether \<^verbatim>\<open>malloc(len * sizeof(int))\<close> returned a buffer.  The result is
  the return code with the two lookups as the function leaves them.
\<close>

definition buildContactsLookup :: "bool \<Rightarrow> Lookup \<Rightarrow> Lookup \<Rightarrow> int list \<Rightarrow> int list \<Rightarrow> int list
    \<Rightarrow> (int \<times> Lookup \<times> Lookup) option" where
  "buildContactsLookup malloc_ok ingoing outgoing src dst ts =
     (if \<not> malloc_ok then Some (-1, ingoing, outgoing)
      else case build_loop src dst ts (R_orderVector ts) (ingoing, outgoing) of
             None \<Rightarrow> None
           | Some (i, out) \<Rightarrow> Some (0, i, out))"

text \<open>\<^verbatim>\<open>std::vector<std::map<int, Contacts> > v(n)\<close>: \<open>n\<close> empty maps.\<close>

definition empty_lookup :: "int \<Rightarrow> Lookup" where
  "empty_lookup n = replicate (nat n) []"

section \<open>Shortest paths\<close>

text \<open>
  Lines 200-214 of \<^verbatim>\<open>doShortestPaths\<close>: the entry of \<^verbatim>\<open>result\<close> for neighbour \<open>k\<close>,
  given the row id of \<^verbatim>\<open>t_begin\<close>.
\<close>

definition record_shortest :: "(int \<times> int) intmap \<Rightarrow> int \<Rightarrow> int \<Rightarrow> int \<Rightarrow> (int \<times> int) intmap" where
  "record_shortest result k distance rid =
     (case map_of result k of
        None \<Rightarrow> map_set k (distance, rid + 1) result
      | Some dr \<Rightarrow>
          if distance < fst dr then map_set k (distance, rid + 1) result else result)"

text \<open>
  The \<^verbatim>\<open>for\<close> loop of \<^verbatim>\<open>doShortestPaths\<close> over the buckets of \<^verbatim>\<open>data[node]\<close> that are
  still to be visited, in ascending key order.  \<open>visited\<close> is the by-value copy of
  \<^verbatim>\<open>visitedNodes\<close> after \<^verbatim>\<open>visitedNodes.insert(node)\<close>; \<open>result\<close> is the map passed by
  reference, so each recursive call hands its map on to the next bucket.  The recursive
  call reads \<^verbatim>\<open>data[it->first]\<close>, undefined outside the vector.
\<close>

function sp_loop :: "Lookup \<Rightarrow> Contacts intmap \<Rightarrow> int \<Rightarrow> int \<Rightarrow> int set \<Rightarrow> int \<Rightarrow> bool
    \<Rightarrow> (int \<times> int) intmap \<Rightarrow> (int \<times> int) intmap option" where
  "sp_loop data [] tBegin tEnd visited distance ingoing result = Some result"
| "sp_loop data ((k, cs) # rest) tBegin tEnd visited distance ingoing result =
     (if k \<notin> visited then
        (let t_begin = lower_bound cs 0 (length cs) tBegin in
         if in_window cs t_begin tEnd then
           (let result1 = record_shortest result k distance (rowid (cs ! t_begin));
                w = next_window cs t_begin tBegin tEnd ingoing in
            case vec_at data k of None \<Rightarrow> None
            | Some m \<Rightarrow>
              (case sp_loop data m (fst w) (snd w) (insert k visited) (distance + 1)
                      ingoing result1 of
                 None \<Rightarrow> None
               | Some result2 \<Rightarrow>
                   sp_loop data rest tBegin tEnd visited distance ingoing result2))
         else sp_loop data rest tBegin tEnd visited distance ingoing result)
      else sp_loop data rest tBegin tEnd visited distance ingoing result)"
  by pat_completeness auto

text \<open>Termination: every call adds a node that occurs as a key of the lookup to the path.\<close>

definition lookup_keys :: "Lookup \<Rightarrow> Contacts intmap \<Rightarrow> int set" where
  "lookup_keys data m = (\<Union>b \<in> set data. fst ` set b) \<union> fst ` set m"

lemma finite_lookup_keys: "finite (lookup_keys data m)"
  by (simp add: lookup_keys_def)

lemma vec_at_mem: "vec_at v i = Some x \<Longrightarrow> x \<in> set v"
  by (auto simp: vec_at_def split: if_splits)

lemma lookup_keys_inner: "vec_at data k = Some m \<Longrightarrow> lookup_keys data m \<subseteq> lookup_keys data m'"
  by (auto simp: lookup_keys_def dest!: vec_at_mem)

lemma lookup_keys_rest: "lookup_keys data rest \<subseteq> lookup_keys data (kc # rest)"
  by (auto simp: lookup_keys_def)

lemma lookup_keys_head: "k \<in> lookup_keys data ((k, cs) # rest)"
  by (simp add: lookup_keys_def)

definition sp_measure :: "Lookup \<Rightarrow> Contacts intmap \<Rightarrow> int set \<Rightarrow> nat" where
  "sp_measure data m visited = card (lookup_keys data m - visited)"

lemma sp_measure_inner:
  assumes "k \<notin> visited" "vec_at data k = Some m"
  shows "sp_measure data m (insert k visited) < sp_measure data ((k, cs) # rest) visited"
proof -
  have "lookup_keys data m - insert k visited \<subset> lookup_keys data ((k, cs) # rest) - visited"
    using assms lookup_keys_inner[OF assms(2), of "(k, cs) # rest"] lookup_keys_head[of k data cs rest]
    by auto
  then show ?thesis
    unfolding sp_measure_def by (intro psubset_card_mono) (auto simp: finite_lookup_keys)
qed

lemma sp_measure_rest: "sp_measure data rest visited \<le> sp_measure data (kc # rest) visited"
  unfolding sp_measure_def
  using lookup_keys_rest[of data rest kc]
  by (intro card_mono) (auto simp: finite_lookup_keys)

lemma sp_loop_all_dom: "All sp_loop_dom"
  apply (relation "(\<lambda>(data, m, tb, te, visited, d, ing, res). sp_measure data m visited) <*mlex*>
                   measure (\<lambda>(data, m, tb, te, visited, d, ing, res). length m)")
  apply (auto simp: wf_mlex mlex_less sp_measure_inner intro!: mlex_leq sp_measure_rest)
  done

termination sp_loop
  by (rule sp_loop_all_dom)

definition doShortestPaths :: "Lookup \<Rightarrow> int \<Rightarrow> int \<Rightarrow> int \<Rightarrow> int set \<Rightarrow> int \<Rightarrow> bool
    \<Rightarrow> (int \<times> int) intmap \<Rightarrow> (int \<times> int) intmap option" where
  "doShortestPaths data node tBegin tEnd visited distance ingoing result =
     (case vec_at data node of None \<Rightarrow> None
      | Some m \<Rightarrow> sp_loop data m tBegin tEnd (insert node visited) distance ingoing result)"

subsection \<open>What the two bisections guarantee on any bucket, sorted or not\<close>

lemma lower_bound_loop_0 [simp]: "lower_bound_loop cs first 0 val = first"
  by (simp add: lower_bound_loop.simps)

lemma upper_bound_loop_0 [simp]: "upper_bound_loop cs first 0 val = first"
  by (simp add: upper_bound_loop.simps)

lemma lower_bound_loop_inv:
  "first \<le> lower_bound_loop cs first len val \<and>
   lower_bound_loop cs first len val \<le> first + len \<and>
   (lower_bound_loop cs first len val < first + len \<longrightarrow>
      val \<le> timestamp (cs ! lower_bound_loop cs first len val))"
proof (induction cs first len val rule: lower_bound_loop.induct)
  case (1 cs first len val)
  show ?case
  proof (cases "0 < len")
    case False
    then show ?thesis by simp
  next
    case True
    define half where "half = len div 2"
    define middle where "middle = first + half"
    have hl: "half < len" using True by (simp add: half_def)
    show ?thesis
    proof (cases "CompareContact_ct (cs ! middle) val")
      case c: True
      have eq: "lower_bound_loop cs first len val =
                lower_bound_loop cs (middle + 1) (len - half - 1) val"
        using True c by (subst lower_bound_loop.simps) (simp add: half_def middle_def Let_def)
      have s: "middle + 1 + (len - half - 1) = first + len"
        using hl by (simp add: middle_def)
      from "1.IH"(1)[OF True half_def middle_def c]
      show ?thesis unfolding eq s by (auto simp: middle_def)
    next
      case c: False
      have eq: "lower_bound_loop cs first len val = lower_bound_loop cs first half val"
        using True c by (subst lower_bound_loop.simps) (simp add: half_def middle_def Let_def)
      from "1.IH"(2)[OF True half_def middle_def c] c hl
      show ?thesis unfolding eq
        by (cases "lower_bound_loop cs first half val = first + half")
           (auto simp: middle_def CompareContact_ct_def)
    qed
  qed
qed

lemma upper_bound_loop_inv:
  "first \<le> upper_bound_loop cs first len val \<and>
   upper_bound_loop cs first len val \<le> first + len \<and>
   (first < upper_bound_loop cs first len val \<longrightarrow>
      timestamp (cs ! (upper_bound_loop cs first len val - 1)) \<le> val) \<and>
   (0 < len \<longrightarrow> timestamp (cs ! first) \<le> val \<longrightarrow> first < upper_bound_loop cs first len val)"
proof (induction cs first len val rule: upper_bound_loop.induct)
  case (1 cs first len val)
  show ?case
  proof (cases "0 < len")
    case False
    then show ?thesis by simp
  next
    case True
    define half where "half = len div 2"
    define middle where "middle = first + half"
    have hl: "half < len" using True by (simp add: half_def)
    show ?thesis
    proof (cases "CompareContact_tc val (cs ! middle)")
      case c: True
      have eq: "upper_bound_loop cs first len val = upper_bound_loop cs first half val"
        using True c by (subst upper_bound_loop.simps) (simp add: half_def middle_def Let_def)
      have "timestamp (cs ! first) \<le> val \<Longrightarrow> 0 < half"
        using c by (cases "half = 0") (auto simp: middle_def CompareContact_tc_def)
      with "1.IH"(1)[OF True half_def middle_def c] hl
      show ?thesis unfolding eq by auto
    next
      case c: False
      have eq: "upper_bound_loop cs first len val =
                upper_bound_loop cs (middle + 1) (len - half - 1) val"
        using True c by (subst upper_bound_loop.simps) (simp add: half_def middle_def Let_def)
      have s: "middle + 1 + (len - half - 1) = first + len"
        using hl by (simp add: middle_def)
      from "1.IH"(2)[OF True half_def middle_def c] c
      show ?thesis unfolding eq s
        by (cases "upper_bound_loop cs (middle + 1) (len - half - 1) val = middle + 1")
           (auto simp: middle_def CompareContact_tc_def)
    qed
  qed
qed

lemma lower_bound_le: "lower_bound cs 0 (length cs) val \<le> length cs"
  using lower_bound_loop_inv[of 0 cs "length cs" val] by (simp add: lower_bound_def)

lemma lower_bound_ge:
  "lower_bound cs 0 (length cs) val \<noteq> length cs \<Longrightarrow>
   val \<le> timestamp (cs ! lower_bound cs 0 (length cs) val)"
  using lower_bound_loop_inv[of 0 cs "length cs" val] by (simp add: lower_bound_def)

lemma upper_bound_after:
  assumes "in_window cs p tEnd" "p \<le> length cs"
  shows "p < upper_bound cs p (length cs) tEnd \<and> upper_bound cs p (length cs) tEnd \<le> length cs \<and>
         timestamp (cs ! (upper_bound cs p (length cs) tEnd - 1)) \<le> tEnd"
proof -
  have "0 < length cs - p" using assms by (simp add: in_window_def)
  with upper_bound_loop_inv[of p cs "length cs - p" tEnd] assms
  show ?thesis by (auto simp: upper_bound_def in_window_def)
qed

lemma next_window_narrows:
  assumes "in_window cs (lower_bound cs 0 (length cs) tBegin) tEnd"
  shows "tBegin \<le> fst (next_window cs (lower_bound cs 0 (length cs) tBegin) tBegin tEnd ingoing) \<and>
         snd (next_window cs (lower_bound cs 0 (length cs) tBegin) tBegin tEnd ingoing) \<le> tEnd"
  using upper_bound_after[OF assms lower_bound_le] lower_bound_ge[of cs tBegin] assms
  by (auto simp: next_window_def Let_def in_window_def)

section \<open>Trace contacts\<close>

text \<open>
  The inner \<^verbatim>\<open>for\<close> loop of \<^verbatim>\<open>doTraceContacts\<close> (lines 401-407) pushes, for each
  position of \<^verbatim>\<open>[t_begin, t_end)\<close>, the row id plus one and the distance.
\<close>

fun push_range :: "Contacts \<Rightarrow> nat list \<Rightarrow> int \<Rightarrow> int list \<times> int list \<Rightarrow> int list \<times> int list" where
  "push_range cs [] distance res = res"
| "push_range cs (i # is) distance res =
     push_range cs is distance (fst res @ [rowid (cs ! i) + 1], snd res @ [distance])"

text \<open>
  The \<^verbatim>\<open>for\<close> loop of \<^verbatim>\<open>doTraceContacts\<close> over the remaining buckets of
  \<^verbatim>\<open>data[node]\<close>.  The pair \<open>res\<close> is \<^verbatim>\<open>(resultRowid, resultDistance)\<close>; the
  \<^verbatim>\<open>continue\<close> of line 410 goes on with the next bucket.
\<close>

function tc_loop :: "Lookup \<Rightarrow> Contacts intmap \<Rightarrow> int \<Rightarrow> int \<Rightarrow> int set \<Rightarrow> int \<Rightarrow> bool
    \<Rightarrow> int list \<times> int list \<Rightarrow> int \<Rightarrow> (int list \<times> int list) option" where
  "tc_loop data [] tBegin tEnd visited distance ingoing res maxDistance = Some res"
| "tc_loop data ((k, cs) # rest) tBegin tEnd visited distance ingoing res maxDistance =
     (if k \<notin> visited then
        (let t_begin = lower_bound cs 0 (length cs) tBegin in
         if in_window cs t_begin tEnd then
           (let t_end = upper_bound cs t_begin (length cs) tEnd;
                res1 = push_range cs [t_begin..<t_end] distance res in
            if maxDistance > 0 \<and> distance \<ge> maxDistance
            then tc_loop data rest tBegin tEnd visited distance ingoing res1 maxDistance
            else
              (let w = next_window cs t_begin tBegin tEnd ingoing in
               case vec_at data k of None \<Rightarrow> None
               | Some m \<Rightarrow>
                 (case tc_loop data m (fst w) (snd w) (insert k visited) (distance + 1)
                         ingoing res1 maxDistance of
                    None \<Rightarrow> None
                  | Some res2 \<Rightarrow>
                      tc_loop data rest tBegin tEnd visited distance ingoing res2 maxDistance)))
         else tc_loop data rest tBegin tEnd visited distance ingoing res maxDistance)
      else tc_loop data rest tBegin tEnd visited distance ingoing res maxDistance)"
  by pat_completeness auto

lemma tc_loop_all_dom: "All tc_loop_dom"
  apply (relation "(\<lambda>(data, m, tb, te, visited, d, ing, res, mx). sp_measure data m visited) <*mlex*>
                   measure (\<lambda>(data, m, tb, te, visited, d, ing, res, mx). length m)")
  apply (auto simp: wf_mlex mlex_less sp_measure_inner intro!: mlex_leq sp_measure_rest)
  done

termination tc_loop
  by (rule tc_loop_all_dom)

definition doTraceContacts :: "Lookup \<Rightarrow> int \<Rightarrow> int \<Rightarrow> int \<Rightarrow> int set \<Rightarrow> int \<Rightarrow> bool
    \<Rightarrow> int list \<times> int list \<Rightarrow> int \<Rightarrow> (int list \<times> int list) option" where
  "doTraceContacts data node tBegin tEnd visited distance ingoing res maxDistance =
     (case vec_at data node of None \<Rightarrow> None
      | Some m \<Rightarrow>
          tc_loop data m tBegin tEnd (insert node visited) distance ingoing res maxDistance)"

section \<open>Network summary\<close>

text \<open>
  \<^verbatim>\<open>class VisitedNodes\<close>: the counter and the vector of (visited, bound) pairs, which the
  constructor fills with \<open>(false, 0)\<close>.
\<close>

record VisitedNodes =
  numberOfVisitedNodes :: int
  visitedNodes :: "(bool \<times> int) list"

definition VisitedNodes_new :: "int \<Rightarrow> VisitedNodes" where
  "VisitedNodes_new numberOfIdentifiers =
     \<lparr>numberOfVisitedNodes = 0, visitedNodes = replicate (nat numberOfIdentifiers) (False, 0)\<rparr>"

definition N :: "VisitedNodes \<Rightarrow> int" where
  "N vs = numberOfVisitedNodes vs"

definition Update :: "VisitedNodes \<Rightarrow> int \<Rightarrow> int \<Rightarrow> int \<Rightarrow> bool \<Rightarrow> VisitedNodes option" where
  "Update vs node tBegin tEnd ingoing =
     (case vec_at (visitedNodes vs) node of None \<Rightarrow> None
      | Some e \<Rightarrow>
          if fst e then
            (if ingoing then
               (if tEnd > snd e
                then Some (vs\<lparr>visitedNodes := (visitedNodes vs)[nat node := (fst e, tEnd)]\<rparr>)
                else Some vs)
             else if tBegin < snd e
                then Some (vs\<lparr>visitedNodes := (visitedNodes vs)[nat node := (fst e, tBegin)]\<rparr>)
                else Some vs)
          else
            Some \<lparr>numberOfVisitedNodes = numberOfVisitedNodes vs + 1,
                  visitedNodes = (visitedNodes vs)
                    [nat node := (True, if ingoing then tEnd else tBegin)]\<rparr>)"

definition Visit :: "VisitedNodes \<Rightarrow> int \<Rightarrow> int \<Rightarrow> int \<Rightarrow> bool \<Rightarrow> bool option" where
  "Visit vs node tBegin tEnd ingoing =
     (case vec_at (visitedNodes vs) node of None \<Rightarrow> None
      | Some e \<Rightarrow>
          if fst e then
            (if ingoing then (if tEnd \<le> snd e then Some False else Some True)
             else if tBegin \<ge> snd e then Some False else Some True)
          else Some True)"

text \<open>
  The \<^verbatim>\<open>for\<close> loop of \<^verbatim>\<open>contactChain\<close> over the remaining buckets of
  \<^verbatim>\<open>data[node]\<close>, after \<^verbatim>\<open>visitedNodes.Update(node, ...)\<close>.  The recursive call
  \<^verbatim>\<open>contactChain(data, it->first, t0, t1, ...)\<close> is unfolded in place: its \<^verbatim>\<open>Update\<close>,
  its read of \<^verbatim>\<open>data[it->first]\<close>, then its loop.
\<close>

function cc_loop :: "Lookup \<Rightarrow> Contacts intmap \<Rightarrow> int \<Rightarrow> int \<Rightarrow> VisitedNodes \<Rightarrow> bool
    \<Rightarrow> VisitedNodes option" where
  "cc_loop data [] tBegin tEnd vs ingoing = Some vs"
| "cc_loop data ((k, cs) # rest) tBegin tEnd vs ingoing =
     (case Visit vs k tBegin tEnd ingoing of None \<Rightarrow> None
      | Some go \<Rightarrow>
        if go then
          (let t_begin = lower_bound cs 0 (length cs) tBegin in
           if in_window cs t_begin tEnd then
             (let w = next_window cs t_begin tBegin tEnd ingoing in
              case Update vs k (fst w) (snd w) ingoing of None \<Rightarrow> None
              | Some vs1 \<Rightarrow>
                (case vec_at data k of None \<Rightarrow> None
                 | Some m \<Rightarrow>
                   (case cc_loop data m (fst w) (snd w) vs1 ingoing of None \<Rightarrow> None
                    | Some vs2 \<Rightarrow> cc_loop data rest tBegin tEnd vs2 ingoing)))
           else cc_loop data rest tBegin tEnd vs ingoing)
        else cc_loop data rest tBegin tEnd vs ingoing)"
  by pat_completeness auto

text \<open>
  Termination of the contact chain.  The state only grows: a visited node stays visited and
  its bound only moves outwards (later for ingoing, earlier for outgoing).
\<close>

definition vs_le :: "bool \<Rightarrow> VisitedNodes \<Rightarrow> VisitedNodes \<Rightarrow> bool" where
  "vs_le ingoing vs vs' =
     (length (visitedNodes vs') = length (visitedNodes vs) \<and>
      (\<forall>i < length (visitedNodes vs).
         fst (visitedNodes vs ! i) \<longrightarrow>
           fst (visitedNodes vs' ! i) \<and>
           (if ingoing then snd (visitedNodes vs ! i) \<le> snd (visitedNodes vs' ! i)
            else snd (visitedNodes vs' ! i) \<le> snd (visitedNodes vs ! i))))"

lemma vs_le_refl: "vs_le ingoing vs vs"
  by (simp add: vs_le_def)

lemma vs_le_trans: "vs_le ingoing a b \<Longrightarrow> vs_le ingoing b c \<Longrightarrow> vs_le ingoing a c"
  unfolding vs_le_def by (auto split: if_splits; force)

lemma Update_vs_le: "Update vs k tb te ingoing = Some vs1 \<Longrightarrow> vs_le ingoing vs vs1"
  by (auto simp: Update_def vs_le_def vec_at_def nth_list_update
           split: option.splits if_splits)

lemma cc_loop_vs_le_dom:
  "cc_loop_dom (data, m, tBegin, tEnd, vs, ingoing) \<Longrightarrow>
   cc_loop data m tBegin tEnd vs ingoing = Some vs' \<Longrightarrow> vs_le ingoing vs vs'"
proof (induction arbitrary: vs' rule: cc_loop.pinduct)
  case (1 data tBegin tEnd vs ingoing)
  then show ?case by (simp add: cc_loop.psimps vs_le_refl)
next
  case (2 data k cs rest tBegin tEnd vs ingoing)
  note eq = cc_loop.psimps(2)[OF "2.hyps"]
  obtain go where go: "Visit vs k tBegin tEnd ingoing = Some go"
    using "2.prems" by (cases "Visit vs k tBegin tEnd ingoing") (simp_all add: eq)
  define p where "p = lower_bound cs 0 (length cs) tBegin"
  define w where "w = next_window cs p tBegin tEnd ingoing"
  show ?case
  proof (cases "go \<and> in_window cs p tEnd")
    case False
    then have "cc_loop data rest tBegin tEnd vs ingoing = Some vs'"
      using "2.prems" go by (auto simp: eq Let_def p_def split: if_splits)
    with False go "2.IH"(3)[OF go _ p_def] "2.IH"(4)[OF go] show ?thesis
      by (cases go) auto
  next
    case True
    then have g: go and iw: "in_window cs p tEnd" by simp_all
    from "2.prems" go g iw obtain vs1 m vs2 where
      u: "Update vs k (fst w) (snd w) ingoing = Some vs1" and
      v: "vec_at data k = Some m" and
      i: "cc_loop data m (fst w) (snd w) vs1 ingoing = Some vs2" and
      r: "cc_loop data rest tBegin tEnd vs2 ingoing = Some vs'"
      by (auto simp: eq Let_def p_def[symmetric] w_def[symmetric] split: option.splits)
    have "vs_le ingoing vs1 vs2"
      by (rule "2.IH"(1)[OF go g p_def iw w_def u v i])
    moreover have "vs_le ingoing vs2 vs'"
      by (rule "2.IH"(2)[OF go g p_def iw w_def u v i r])
    ultimately show ?thesis
      using Update_vs_le[OF u] by (blast intro: vs_le_trans)
  qed
qed

definition cc_measure :: "Lookup \<Rightarrow> Contacts intmap \<Rightarrow> int \<Rightarrow> int \<Rightarrow> VisitedNodes \<Rightarrow> bool \<Rightarrow> nat" where
  "cc_measure data m tBegin tEnd vs ingoing =
     card {k \<in> lookup_keys data m. Visit vs k tBegin tEnd ingoing = Some True}"

lemma Visit_narrow:
  "Visit vs k t0 t1 ingoing = Some True \<Longrightarrow> tBegin \<le> t0 \<Longrightarrow> t1 \<le> tEnd \<Longrightarrow>
   Visit vs k tBegin tEnd ingoing = Some True"
  by (auto simp: Visit_def split: option.splits if_splits)

lemma Visit_vs_le:
  "vs_le ingoing vs vs' \<Longrightarrow> Visit vs' k tBegin tEnd ingoing = Some True \<Longrightarrow>
   Visit vs k tBegin tEnd ingoing = Some True"
  by (auto simp: Visit_def vs_le_def vec_at_def split: option.splits if_splits; force)

lemma Visit_after_Update:
  "Update vs k t0 t1 ingoing = Some vs1 \<Longrightarrow> Visit vs1 k t0 t1 ingoing = Some False"
  by (auto simp: Visit_def Update_def vec_at_def split: option.splits if_splits)

lemma cc_measure_inner:
  assumes "Visit vs k tBegin tEnd ingoing = Some True"
    and "Update vs k t0 t1 ingoing = Some vs1"
    and "vec_at data k = Some m"
    and "tBegin \<le> t0" "t1 \<le> tEnd"
  shows "cc_measure data m t0 t1 vs1 ingoing < cc_measure data ((k, cs) # rest) tBegin tEnd vs ingoing"
proof -
  let ?A = "{j \<in> lookup_keys data m. Visit vs1 j t0 t1 ingoing = Some True}"
  let ?B = "{j \<in> lookup_keys data ((k, cs) # rest). Visit vs j tBegin tEnd ingoing = Some True}"
  have kB: "k \<in> ?B" using assms(1) lookup_keys_head by simp
  have kA: "k \<notin> ?A" using Visit_after_Update[OF assms(2)] by simp
  have "?A \<subseteq> ?B"
  proof
    fix j assume j: "j \<in> ?A"
    then have "Visit vs j t0 t1 ingoing = Some True"
      using Visit_vs_le[OF Update_vs_le[OF assms(2)]] by simp
    then have "Visit vs j tBegin tEnd ingoing = Some True"
      using assms(4,5) by (rule Visit_narrow)
    with j lookup_keys_inner[OF assms(3)] show "j \<in> ?B" by auto
  qed
  with kA kB have "?A \<subset> ?B" by auto
  then show ?thesis
    unfolding cc_measure_def by (intro psubset_card_mono) (auto simp: finite_lookup_keys)
qed

lemma cc_measure_rest:
  assumes "vs_le ingoing vs vs'"
  shows "cc_measure data rest tBegin tEnd vs' ingoing \<le> cc_measure data (kc # rest) tBegin tEnd vs ingoing"
  unfolding cc_measure_def
  using lookup_keys_rest[of data rest kc] Visit_vs_le[OF assms]
  by (intro card_mono) (auto simp: finite_lookup_keys)

lemma cc_loop_all_dom: "All cc_loop_dom"
proof (relation "(\<lambda>(data, m, tb, te, vs, ing). cc_measure data m tb te vs ing) <*mlex*>
                   measure (\<lambda>(data, m, tb, te, vs, ing). length m)", goal_cases)
  case 1
  show ?case by (simp add: wf_mlex)
next
  case (2 data k cs rest tBegin tEnd vs ingoing go t_begin w vs1 m)
  then show ?case
    using next_window_narrows[of cs tBegin tEnd ingoing]
    by (auto intro!: mlex_less cc_measure_inner)
next
  case (3 data k cs rest tBegin tEnd vs ingoing go t_begin w vs1 m vs2)
  then have "vs_le ingoing vs vs2"
    using cc_loop_vs_le_dom Update_vs_le vs_le_trans by blast
  then show ?case
    by (auto intro!: mlex_leq cc_measure_rest)
next
  case 4
  then show ?case by (auto intro!: mlex_leq cc_measure_rest vs_le_refl)
next
  case 5
  then show ?case by (auto intro!: mlex_leq cc_measure_rest vs_le_refl)
qed

termination cc_loop
  by (rule cc_loop_all_dom)

definition contactChain :: "Lookup \<Rightarrow> int \<Rightarrow> int \<Rightarrow> int \<Rightarrow> VisitedNodes \<Rightarrow> bool
    \<Rightarrow> VisitedNodes option" where
  "contactChain data node tBegin tEnd vs ingoing =
     (case Update vs node tBegin tEnd ingoing of None \<Rightarrow> None
      | Some vs1 \<Rightarrow>
        (case vec_at data node of None \<Rightarrow> None
         | Some m \<Rightarrow> cc_loop data m tBegin tEnd vs1 ingoing))"

text \<open>\<^verbatim>\<open>degree\<close>: the loop over the buckets of \<^verbatim>\<open>data[node]\<close>, then the function.\<close>

fun degree_loop :: "Contacts intmap \<Rightarrow> int \<Rightarrow> int \<Rightarrow> int \<Rightarrow> int \<Rightarrow> int" where
  "degree_loop [] node tBegin tEnd result = result"
| "degree_loop ((k, cs) # rest) node tBegin tEnd result =
     (if node \<noteq> k then
        (let t_begin = lower_bound cs 0 (length cs) tBegin in
         if in_window cs t_begin tEnd
         then degree_loop rest node tBegin tEnd (result + 1)
         else degree_loop rest node tBegin tEnd result)
      else degree_loop rest node tBegin tEnd result)"

definition degree :: "Lookup \<Rightarrow> int \<Rightarrow> int \<Rightarrow> int \<Rightarrow> int option" where
  "degree data node tBegin tEnd =
     (case vec_at data node of None \<Rightarrow> None
      | Some m \<Rightarrow> Some (degree_loop m node tBegin tEnd 0))"

section \<open>The three entry points\<close>

text \<open>
  The R vectors arrive as integer lists and \<^verbatim>\<open>numberOfIdentifiers\<close> as one integer, so
  the tests of \<^verbatim>\<open>check_arguments\<close> (no argument is \<^verbatim>\<open>NULL\<close>, each is an integer vector,
  the node count has length one) hold by typing; marshalling is outside this model.
  \<^verbatim>\<open>INTEGER(x)[i]\<close> past the end of \<open>x\<close> is undefined.  A negative node count makes the
  \<^verbatim>\<open>std::vector\<close> constructor throw.
\<close>

definition int_at :: "int list \<Rightarrow> nat \<Rightarrow> int option" where
  "int_at xs i = (if i < length xs then Some (xs ! i) else None)"

record ShortestPaths =
  inDistance :: "int list"
  inRowid :: "int list"
  inIndex :: "int list"
  outDistance :: "int list"
  outRowid :: "int list"
  outIndex :: "int list"

text \<open>The iteration of \<^verbatim>\<open>shortestPaths\<close> for root number \<open>i\<close> (lines 284-328).\<close>

definition shortestPaths_root :: "Lookup \<Rightarrow> Lookup \<Rightarrow> int list \<Rightarrow> int list \<Rightarrow> int list \<Rightarrow> int list
    \<Rightarrow> int list \<Rightarrow> nat \<Rightarrow> ShortestPaths \<Rightarrow> ShortestPaths option" where
  "shortestPaths_root ingoing outgoing root inBegin inEnd outBegin outEnd i acc =
     (case (int_at root i, int_at inBegin i, int_at inEnd i) of
        (Some r, Some ib, Some ie) \<Rightarrow>
          (case doShortestPaths ingoing (r - 1) ib ie {} 1 True [] of None \<Rightarrow> None
           | Some ingoingShortestPaths \<Rightarrow>
             (case (int_at outBegin i, int_at outEnd i) of
                (Some ob, Some oe) \<Rightarrow>
                  (case doShortestPaths outgoing (r - 1) ob oe {} 1 False [] of None \<Rightarrow> None
                   | Some outgoingShortestPaths \<Rightarrow>
                       Some \<lparr>inDistance = inDistance acc @ map (\<lambda>e. fst (snd e)) ingoingShortestPaths,
                             inRowid = inRowid acc @ map (\<lambda>e. snd (snd e)) ingoingShortestPaths,
                             inIndex = inIndex acc @ map (\<lambda>e. int i + 1) ingoingShortestPaths,
                             outDistance = outDistance acc @ map (\<lambda>e. fst (snd e)) outgoingShortestPaths,
                             outRowid = outRowid acc @ map (\<lambda>e. snd (snd e)) outgoingShortestPaths,
                             outIndex = outIndex acc @ map (\<lambda>e. int i + 1) outgoingShortestPaths\<rparr>)
              | _ \<Rightarrow> None))
      | _ \<Rightarrow> None)"

fun shortestPaths_loop :: "Lookup \<Rightarrow> Lookup \<Rightarrow> int list \<Rightarrow> int list \<Rightarrow> int list \<Rightarrow> int list
    \<Rightarrow> int list \<Rightarrow> nat list \<Rightarrow> ShortestPaths \<Rightarrow> ShortestPaths option" where
  "shortestPaths_loop ingoing outgoing root inBegin inEnd outBegin outEnd [] acc = Some acc"
| "shortestPaths_loop ingoing outgoing root inBegin inEnd outBegin outEnd (i # is) acc =
     (case shortestPaths_root ingoing outgoing root inBegin inEnd outBegin outEnd i acc of
        None \<Rightarrow> None
      | Some acc' \<Rightarrow> shortestPaths_loop ingoing outgoing root inBegin inEnd outBegin outEnd is acc')"

text \<open>\<^verbatim>\<open>shortestPaths\<close> ignores the return code of \<^verbatim>\<open>buildContactsLookup\<close>.\<close>

definition shortestPaths :: "bool \<Rightarrow> int list \<Rightarrow> int list \<Rightarrow> int list \<Rightarrow> int list \<Rightarrow> int list \<Rightarrow> int list
    \<Rightarrow> int list \<Rightarrow> int list \<Rightarrow> int \<Rightarrow> error + ShortestPaths" where
  "shortestPaths malloc_ok src dst ts root inBegin inEnd outBegin outEnd numberOfIdentifiers =
     (if numberOfIdentifiers < 0 then Inl LengthError
      else
        case buildContactsLookup malloc_ok (empty_lookup numberOfIdentifiers)
               (empty_lookup numberOfIdentifiers) src dst ts of
          None \<Rightarrow> Inl UndefinedBehaviour
        | Some (rc, ingoing, outgoing) \<Rightarrow>
          (case shortestPaths_loop ingoing outgoing root inBegin inEnd outBegin outEnd
                  [0..<length root]
                  \<lparr>inDistance = [], inRowid = [], inIndex = [],
                   outDistance = [], outRowid = [], outIndex = []\<rparr> of
             None \<Rightarrow> Inl UndefinedBehaviour
           | Some r \<Rightarrow> Inr r))"

text \<open>
  \<^verbatim>\<open>traceContacts\<close>: the result is a list of \<open>4 * length root\<close> integer vectors; root
  \<open>i\<close> fills the elements \<open>4 i\<close> to \<open>4 i + 3\<close> with the ingoing row ids, the ingoing
  distances, the outgoing row ids and the outgoing distances.  \<open>maxDistance\<close> is
  \<^verbatim>\<open>INTEGER(maxDistance)[0]\<close>.
\<close>

definition traceContacts_root :: "Lookup \<Rightarrow> Lookup \<Rightarrow> int list \<Rightarrow> int list \<Rightarrow> int list \<Rightarrow> int list
    \<Rightarrow> int list \<Rightarrow> int \<Rightarrow> nat \<Rightarrow> int list list option" where
  "traceContacts_root ingoing outgoing root inBegin inEnd outBegin outEnd maxDistance i =
     (case (int_at root i, int_at inBegin i, int_at inEnd i) of
        (Some r, Some ib, Some ie) \<Rightarrow>
          (case doTraceContacts ingoing (r - 1) ib ie {} 1 True ([], []) maxDistance of
             None \<Rightarrow> None
           | Some rin \<Rightarrow>
             (case (int_at outBegin i, int_at outEnd i) of
                (Some ob, Some oe) \<Rightarrow>
                  (case doTraceContacts outgoing (r - 1) ob oe {} 1 False ([], []) maxDistance of
                     None \<Rightarrow> None
                   | Some rout \<Rightarrow> Some [fst rin, snd rin, fst rout, snd rout])
              | _ \<Rightarrow> None))
      | _ \<Rightarrow> None)"

fun traceContacts_loop :: "Lookup \<Rightarrow> Lookup \<Rightarrow> int list \<Rightarrow> int list \<Rightarrow> int list \<Rightarrow> int list
    \<Rightarrow> int list \<Rightarrow> int \<Rightarrow> nat list \<Rightarrow> int list list \<Rightarrow> int list list option" where
  "traceContacts_loop ingoing outgoing root inBegin inEnd outBegin outEnd maxDistance [] acc = Some acc"
| "traceContacts_loop ingoing outgoing root inBegin inEnd outBegin outEnd maxDistance (i # is) acc =
     (case traceContacts_root ingoing outgoing root inBegin inEnd outBegin outEnd maxDistance i of
        None \<Rightarrow> None
      | Some vecs \<Rightarrow>
          traceContacts_loop ingoing outgoing root inBegin inEnd outBegin outEnd maxDistance is
            (acc @ vecs))"

definition traceContacts :: "bool \<Rightarrow> int list \<Rightarrow> int list \<Rightarrow> int list \<Rightarrow> int list \<Rightarrow> int list \<Rightarrow> int list
    \<Rightarrow> int list \<Rightarrow> int list \<Rightarrow> int \<Rightarrow> int \<Rightarrow> error + int list list" where
  "traceContacts malloc_ok src dst ts root inBegin inEnd outBegin outEnd numberOfIdentifiers
       maxDistance =
     (if numberOfIdentifiers < 0 then Inl LengthError
      else
        case buildContactsLookup malloc_ok (empty_lookup numberOfIdentifiers)
               (empty_lookup numberOfIdentifiers) src dst ts of
          None \<Rightarrow> Inl UndefinedBehaviour
        | Some (rc, ingoing, outgoing) \<Rightarrow>
          (case traceContacts_loop ingoing outgoing root inBegin inEnd outBegin outEnd
                  maxDistance [0..<length root] [] of
             None \<Rightarrow> Inl UndefinedBehaviour
           | Some r \<Rightarrow> Inr r))"

record NetworkSummary =
  inDegree :: "int list"
  outDegree :: "int list"
  ingoingContactChain :: "int list"
  outgoingContactChain :: "int list"

text \<open>The iteration of \<^verbatim>\<open>networkSummary\<close> for root number \<open>i\<close> (lines 634-664).\<close>

definition networkSummary_root :: "Lookup \<Rightarrow> Lookup \<Rightarrow> int list \<Rightarrow> int list \<Rightarrow> int list \<Rightarrow> int list
    \<Rightarrow> int list \<Rightarrow> int \<Rightarrow> nat \<Rightarrow> NetworkSummary \<Rightarrow> NetworkSummary option" where
  "networkSummary_root ingoing outgoing root inBegin inEnd outBegin outEnd numberOfIdentifiers i acc =
     (case (int_at root i, int_at inBegin i, int_at inEnd i) of
        (Some r, Some ib, Some ie) \<Rightarrow>
          (case contactChain ingoing (r - 1) ib ie (VisitedNodes_new numberOfIdentifiers) True of
             None \<Rightarrow> None
           | Some visitedNodesIngoing \<Rightarrow>
             (case (int_at outBegin i, int_at outEnd i) of
                (Some ob, Some oe) \<Rightarrow>
                  (case contactChain outgoing (r - 1) ob oe
                          (VisitedNodes_new numberOfIdentifiers) False of
                     None \<Rightarrow> None
                   | Some visitedNodesOutgoing \<Rightarrow>
                     (case (degree ingoing (r - 1) ib ie, degree outgoing (r - 1) ob oe) of
                        (Some din, Some dout) \<Rightarrow>
                          Some \<lparr>inDegree = inDegree acc @ [din],
                                outDegree = outDegree acc @ [dout],
                                ingoingContactChain =
                                  ingoingContactChain acc @ [N visitedNodesIngoing - 1],
                                outgoingContactChain =
                                  outgoingContactChain acc @ [N visitedNodesOutgoing - 1]\<rparr>
                      | _ \<Rightarrow> None))
              | _ \<Rightarrow> None))
      | _ \<Rightarrow> None)"

fun networkSummary_loop :: "Lookup \<Rightarrow> Lookup \<Rightarrow> int list \<Rightarrow> int list \<Rightarrow> int list \<Rightarrow> int list
    \<Rightarrow> int list \<Rightarrow> int \<Rightarrow> nat list \<Rightarrow> NetworkSummary \<Rightarrow> NetworkSummary option" where
  "networkSummary_loop ingoing outgoing root inBegin inEnd outBegin outEnd n [] acc = Some acc"
| "networkSummary_loop ingoing outgoing root inBegin inEnd outBegin outEnd n (i # is) acc =
     (case networkSummary_root ingoing outgoing root inBegin inEnd outBegin outEnd n i acc of
        None \<Rightarrow> None
      | Some acc' \<Rightarrow> networkSummary_loop ingoing outgoing root inBegin inEnd outBegin outEnd n is acc')"

text \<open>
  \<^verbatim>\<open>networkSummary\<close> checks the return code: a failed allocation ends in
  \<^verbatim>\<open>Rf_error("Unable to calculate network summary")\<close>.
\<close>

definition networkSummary :: "bool \<Rightarrow> int list \<Rightarrow> int list \<Rightarrow> int list \<Rightarrow> int list \<Rightarrow> int list \<Rightarrow> int list
    \<Rightarrow> int list \<Rightarrow> int list \<Rightarrow> int \<Rightarrow> error + NetworkSummary" where
  "networkSummary malloc_ok src dst ts root inBegin inEnd outBegin outEnd numberOfIdentifiers =
     (if numberOfIdentifiers < 0 then Inl LengthError
      else
        case buildContactsLookup malloc_ok (empty_lookup numberOfIdentifiers)
               (empty_lookup numberOfIdentifiers) src dst ts of
          None \<Rightarrow> Inl UndefinedBehaviour
        | Some (rc, ingoing, outgoing) \<Rightarrow>
          if rc \<noteq> 0 then Inl (RfError ''Unable to calculate network summary'')
          else
            (case networkSummary_loop ingoing outgoing root inBegin inEnd outBegin outEnd
                    numberOfIdentifiers [0..<length root]
                    \<lparr>inDegree = [], outDegree = [],
                     ingoingContactChain = [], outgoingContactChain = []\<rparr> of
               None \<Rightarrow> Inl UndefinedBehaviour
             | Some r \<Rightarrow> Inr r))"

section \<open>Notions used to state the properties\<close>

text \<open>
  The linear scan of the spec: the position of the first event whose timestamp is at
  least \<open>tBegin\<close>, or the length of the bucket when there is none.
\<close>

fun linear_scan :: "Contacts \<Rightarrow> int \<Rightarrow> nat" where
  "linear_scan [] tBegin = 0"
| "linear_scan (c # cs) tBegin =
     (if tBegin \<le> timestamp c then 0 else Suc (linear_scan cs tBegin))"

text \<open>
  The window of the spec for the descent into a qualifying bucket: ingoing, \<open>tBegin\<close> and
  the timestamp of the last event of the bucket that is not after \<open>tEnd\<close>; outgoing, the
  timestamp of the first event of the bucket that is not before \<open>tBegin\<close>, and \<open>tEnd\<close>.
\<close>

definition spec_window :: "Contacts \<Rightarrow> int \<Rightarrow> int \<Rightarrow> bool \<Rightarrow> int \<times> int" where
  "spec_window cs tBegin tEnd ingoing =
     (if ingoing then (tBegin, timestamp (last (filter (\<lambda>c. timestamp c \<le> tEnd) cs)))
      else (timestamp (hd (filter (\<lambda>c. tBegin \<le> timestamp c) cs)), tEnd))"

text \<open>All buckets of an index.\<close>

definition buckets_of :: "Lookup \<Rightarrow> Contacts set" where
  "buckets_of data = {cs. \<exists>m \<in> set data. \<exists>k. (k, cs) \<in> set m}"

text \<open>A record id is the one-based number of an input row.\<close>

definition valid_id :: "int list \<Rightarrow> int \<Rightarrow> bool" where
  "valid_id ts x = (1 \<le> x \<and> x \<le> int (length ts))"

text \<open>
  The four vectors that \<^verbatim>\<open>traceContacts\<close> returns for one root: row ids and distances pair
  up, and the row ids are valid.
\<close>

definition good_block :: "int list \<Rightarrow> int list list \<Rightarrow> bool" where
  "good_block ts b = (length b = 4 \<and> length (b ! 0) = length (b ! 1) \<and>
     length (b ! 2) = length (b ! 3) \<and> (\<forall>x \<in> set (b ! 0) \<union> set (b ! 2). valid_id ts x))"

text \<open>Node \<open>k\<close> is marked visited.\<close>

definition is_visited :: "VisitedNodes \<Rightarrow> int \<Rightarrow> bool" where
  "is_visited vs k = (case vec_at (visitedNodes vs) k of None \<Rightarrow> False | Some e \<Rightarrow> fst e)"

text \<open>The number of distinct nodes that are marked visited.\<close>

definition visited_count :: "VisitedNodes \<Rightarrow> nat" where
  "visited_count vs = length (filter fst (visitedNodes vs))"

text \<open>
  The nodes other than \<open>node\<close> that have, in the bucket map of \<open>node\<close>, at least one event
  with a timestamp in \<open>[tBegin, tEnd]\<close>: the distinct nodes reachable at hop 1.
\<close>

definition hop1 :: "Lookup \<Rightarrow> int \<Rightarrow> int \<Rightarrow> int \<Rightarrow> int set" where
  "hop1 data node tBegin tEnd =
     (case vec_at data node of None \<Rightarrow> {}
      | Some m \<Rightarrow> fst ` {kc \<in> set m. fst kc \<noteq> node \<and>
                      (\<exists>c \<in> set (snd kc). tBegin \<le> timestamp c \<and> timestamp c \<le> tEnd)})"

text \<open>What every index built by \<^verbatim>\<open>buildContactsLookup\<close> satisfies.\<close>

definition index_ok :: "Lookup \<Rightarrow> bool" where
  "index_ok data = (\<forall>m \<in> set data. sorted_wrt (<) (map fst m) \<and>
                      (\<forall>kc \<in> set m. sorted (map timestamp (snd kc))))"

text \<open>
  The four arrays of a network summary have \<open>K\<close> entries each and \<open>P\<close> holds of every row.
\<close>

definition rows_ok :: "(nat \<Rightarrow> int \<Rightarrow> int \<Rightarrow> int \<Rightarrow> int \<Rightarrow> bool) \<Rightarrow> NetworkSummary \<Rightarrow> nat \<Rightarrow> bool" where
  "rows_ok P r K =
     (length (inDegree r) = K \<and> length (outDegree r) = K \<and>
      length (ingoingContactChain r) = K \<and> length (outgoingContactChain r) = K \<and>
      (\<forall>j < K. P j (inDegree r ! j) (outDegree r ! j)
                   (ingoingContactChain r ! j) (outgoingContactChain r ! j)))"

text \<open>
  From the source: the two tests of \<^verbatim>\<open>contactChain\<close> that guard its recursive call, the
  one of \<^verbatim>\<open>Visit\<close> (line 561) and the one of the window (line 570).
\<close>

definition descends :: "VisitedNodes \<Rightarrow> int \<Rightarrow> Contacts \<Rightarrow> int \<Rightarrow> int \<Rightarrow> bool \<Rightarrow> bool" where
  "descends vs k cs tBegin tEnd ingoing =
     (Visit vs k tBegin tEnd ingoing = Some True \<and>
      in_window cs (lower_bound cs 0 (length cs) tBegin) tEnd)"

text \<open>
  From the words of the spec: a call with the window \<open>w\<close> would extend the recorded bound
  of node \<open>k\<close>, that is, ingoing its end is strictly later than the bound, outgoing its
  begin is strictly earlier.
\<close>

definition extends_bound :: "VisitedNodes \<Rightarrow> int \<Rightarrow> int \<times> int \<Rightarrow> bool \<Rightarrow> bool" where
  "extends_bound vs k w ingoing =
     (case vec_at (visitedNodes vs) k of None \<Rightarrow> False
      | Some e \<Rightarrow> if ingoing then snd e < snd w else fst w < snd e)"

text \<open>
  \<open>sh\<close> keeps of a bucket map the keys and the timestamps; \<open>without i\<close> drops the bucket
  of key \<open>i\<close>.  \<open>rel_data data data'\<close>: the index \<open>data'\<close> is \<open>data\<close> without the self-loop
  bucket of every node, up to row ids.
\<close>

definition sh :: "Contacts intmap \<Rightarrow> int list intmap" where
  "sh m = map (\<lambda>kc. (fst kc, map timestamp (snd kc))) m"

definition without :: "int \<Rightarrow> 'v intmap \<Rightarrow> 'v intmap" where
  "without i m = filter (\<lambda>kc. fst kc \<noteq> i) m"

definition rel_m :: "int \<Rightarrow> Contacts intmap \<Rightarrow> Contacts intmap \<Rightarrow> bool" where
  "rel_m i m m' = (sh m' = sh (without i m))"

definition rel_data :: "Lookup \<Rightarrow> Lookup \<Rightarrow> bool" where
  "rel_data data data' =
     (length data' = length data \<and> (\<forall>i < length data. rel_m (int i) (data ! i) (data' ! i)))"

text \<open>The input with every row whose source equals its destination removed.\<close>

definition remove_self_loops :: "int list \<Rightarrow> int list \<Rightarrow> int list \<Rightarrow> int list \<times> int list \<times> int list" where
  "remove_self_loops src dst ts =
     (let keep = filter (\<lambda>j. src ! j \<noteq> dst ! j) [0..<length ts]
      in (map (\<lambda>j. src ! j) keep, map (\<lambda>j. dst ! j) keep, map (\<lambda>j. ts ! j) keep))"

section \<open>The bisections on a bucket sorted by timestamp\<close>

lemma linear_scan_unique:
  "p \<le> length cs \<Longrightarrow> \<forall>i<p. timestamp (cs ! i) < v \<Longrightarrow>
   (p < length cs \<longrightarrow> v \<le> timestamp (cs ! p)) \<Longrightarrow> linear_scan cs v = p"
proof (induction cs arbitrary: p)
  case Nil
  then show ?case by simp
next
  case (Cons c cs)
  show ?case
  proof (cases p)
    case 0
    with Cons.prems show ?thesis by simp
  next
    case (Suc p')
    have "timestamp c < v" using Cons.prems(2) Suc by force
    moreover have "linear_scan cs v = p'"
      using Cons.prems Suc by (intro Cons.IH) force+
    ultimately show ?thesis using Suc by simp
  qed
qed

lemma sorted_timestamp_nth:
  "sorted (map timestamp cs) \<Longrightarrow> i \<le> j \<Longrightarrow> j < length cs \<Longrightarrow>
   timestamp (cs ! i) \<le> timestamp (cs ! j)"
  using sorted_nth_mono[of "map timestamp cs" i j] by simp

lemma lower_bound_loop_sorted:
  "sorted (map timestamp cs) \<Longrightarrow> first + len \<le> length cs \<Longrightarrow>
   i < lower_bound_loop cs first len val \<Longrightarrow> timestamp (cs ! i) < val \<or> i < first"
proof (induction cs first len val rule: lower_bound_loop.induct)
  case (1 cs first len val)
  note assms = "1.prems"(1)
  note prems = "1.prems"(2,3)
  show ?case
  proof (cases "0 < len")
    case False
    with "1.prems" show ?thesis by simp
  next
    case True
    define half where "half = len div 2"
    define middle where "middle = first + half"
    have hl: "half < len" using True by (simp add: half_def)
    show ?thesis
    proof (cases "CompareContact_ct (cs ! middle) val")
      case c: True
      have eq: "lower_bound_loop cs first len val =
                lower_bound_loop cs (middle + 1) (len - half - 1) val"
        using True c by (subst lower_bound_loop.simps) (simp add: half_def middle_def Let_def)
      have s: "middle + 1 + (len - half - 1) \<le> length cs"
        using hl prems(1) by (simp add: middle_def)
      from "1.IH"(1)[OF True half_def middle_def c assms s] prems(2)
      have "timestamp (cs ! i) < val \<or> i < middle + 1" by (simp add: eq)
      moreover have "middle < length cs"
        using hl prems(1) by (simp add: middle_def)
      then have "i \<le> middle \<Longrightarrow> timestamp (cs ! i) \<le> timestamp (cs ! middle)"
        using sorted_timestamp_nth[OF assms, of i middle] by simp
      ultimately show ?thesis using c by (auto simp: CompareContact_ct_def)
    next
      case c: False
      have eq: "lower_bound_loop cs first len val = lower_bound_loop cs first half val"
        using True c by (subst lower_bound_loop.simps) (simp add: half_def middle_def Let_def)
      have s: "first + half \<le> length cs" using hl prems(1) by simp
      from "1.IH"(2)[OF True half_def middle_def c assms s] prems(2)
      show ?thesis by (simp add: eq)
    qed
  qed
qed

lemma upper_bound_loop_sorted:
  "sorted (map timestamp cs) \<Longrightarrow> first + len \<le> length cs \<Longrightarrow>
   (upper_bound_loop cs first len val \<le> i \<and> i < first + len \<longrightarrow> val < timestamp (cs ! i))"
proof (induction cs first len val rule: upper_bound_loop.induct)
  case (1 cs first len val)
  note assms = "1.prems"(1)
  note prems = "1.prems"(2)
  show ?case
  proof (cases "0 < len")
    case False
    then show ?thesis by simp
  next
    case True
    define half where "half = len div 2"
    define middle where "middle = first + half"
    have hl: "half < len" using True by (simp add: half_def)
    show ?thesis
    proof (cases "CompareContact_tc val (cs ! middle)")
      case c: True
      have eq: "upper_bound_loop cs first len val = upper_bound_loop cs first half val"
        using True c by (subst upper_bound_loop.simps) (simp add: half_def middle_def Let_def)
      have s: "first + half \<le> length cs" using hl prems(1) by simp
      have "middle \<le> i \<Longrightarrow> i < first + len \<Longrightarrow> timestamp (cs ! middle) \<le> timestamp (cs ! i)"
      proof -
        assume a: "middle \<le> i" "i < first + len"
        then have "i < length cs" using prems(1) by simp
        with a(1) show ?thesis by (rule sorted_timestamp_nth[OF assms])
      qed
      with "1.IH"(1)[OF True half_def middle_def c assms s] c
      show ?thesis unfolding eq
        by (cases "i < middle") (auto simp: middle_def CompareContact_tc_def)
    next
      case c: False
      have eq: "upper_bound_loop cs first len val =
                upper_bound_loop cs (middle + 1) (len - half - 1) val"
        using True c by (subst upper_bound_loop.simps) (simp add: half_def middle_def Let_def)
      have s: "middle + 1 + (len - half - 1) = first + len"
        using hl by (simp add: middle_def)
      from "1.IH"(2)[OF True half_def middle_def c assms] prems(1)
      show ?thesis unfolding eq s by simp
    qed
  qed
qed

lemma lower_bound_linear_scan:
  assumes "sorted (map timestamp cs)"
  shows "lower_bound cs 0 (length cs) tBegin = linear_scan cs tBegin"
proof -
  let ?p = "lower_bound_loop cs 0 (length cs) tBegin"
  have "?p \<le> length cs" "?p < length cs \<longrightarrow> tBegin \<le> timestamp (cs ! ?p)"
    using lower_bound_loop_inv[of 0 cs "length cs" tBegin] by simp_all
  moreover have "\<forall>i<?p. timestamp (cs ! i) < tBegin"
    using lower_bound_loop_sorted[OF assms, of 0 "length cs" _ tBegin] by auto
  ultimately show ?thesis
    unfolding lower_bound_def using linear_scan_unique[of ?p cs tBegin] by simp
qed

text \<open>What the spec calls the first event at or after \<open>tBegin\<close> and the last event up to \<open>tEnd\<close>.\<close>

lemma first_qualifying:
  assumes "sorted (map timestamp cs)"
    and "in_window cs (lower_bound cs 0 (length cs) tBegin) tEnd"
  shows "hd (filter (\<lambda>c. tBegin \<le> timestamp c) cs) = cs ! lower_bound cs 0 (length cs) tBegin"
proof -
  let ?p = "lower_bound cs 0 (length cs) tBegin"
  have p: "?p < length cs" using assms(2) lower_bound_le[of cs tBegin] by (simp add: in_window_def)
  have lo: "\<forall>c \<in> set (take ?p cs). \<not> tBegin \<le> timestamp c"
    using lower_bound_loop_sorted[OF assms(1), of 0 "length cs" _ tBegin]
    by (auto simp: in_set_conv_nth lower_bound_def) force
  have "filter (\<lambda>c. tBegin \<le> timestamp c) cs =
        filter (\<lambda>c. tBegin \<le> timestamp c) (take ?p cs) @ filter (\<lambda>c. tBegin \<le> timestamp c) (drop ?p cs)"
    by (metis append_take_drop_id filter_append)
  also have "filter (\<lambda>c. tBegin \<le> timestamp c) (take ?p cs) = []"
    using lo by (simp add: filter_empty_conv)
  also have "drop ?p cs = cs ! ?p # drop (Suc ?p) cs"
    using p by (simp add: Cons_nth_drop_Suc)
  finally show ?thesis using lower_bound_ge[of cs tBegin] p by simp
qed

lemma last_qualifying:
  assumes "sorted (map timestamp cs)"
    and "in_window cs p tEnd" and "p \<le> length cs"
  shows "last (filter (\<lambda>c. timestamp c \<le> tEnd) cs) = cs ! (upper_bound cs p (length cs) tEnd - 1)"
proof -
  let ?q = "upper_bound cs p (length cs) tEnd"
  note ub = upper_bound_after[OF assms(2,3)]
  have p: "p < length cs" using assms(2,3) by (simp add: in_window_def)
  have hi: "\<forall>c \<in> set (drop ?q cs). \<not> timestamp c \<le> tEnd"
  proof
    fix c assume "c \<in> set (drop ?q cs)"
    then obtain i where i: "i < length cs - ?q" "c = cs ! (?q + i)"
      by (auto simp: in_set_conv_nth)
    have "?q + i < length cs" using i(1) by simp
    with upper_bound_loop_sorted[OF assms(1), of p "length cs - p" tEnd "?q + i"] i p
    show "\<not> timestamp c \<le> tEnd" by (auto simp: upper_bound_def)
  qed
  have q1: "?q - 1 < length cs" "Suc (?q - 1) = ?q" using ub by auto
  have lo: "timestamp (cs ! (?q - 1)) \<le> tEnd" using ub by simp
  have "filter (\<lambda>c. timestamp c \<le> tEnd) cs =
        filter (\<lambda>c. timestamp c \<le> tEnd) (take ?q cs) @ filter (\<lambda>c. timestamp c \<le> tEnd) (drop ?q cs)"
    by (metis append_take_drop_id filter_append)
  also have "filter (\<lambda>c. timestamp c \<le> tEnd) (drop ?q cs) = []"
    using hi by (simp add: filter_empty_conv)
  also have "take ?q cs = take (?q - 1) cs @ [cs ! (?q - 1)]"
    using take_Suc_conv_app_nth[OF q1(1)] q1(2) by simp
  finally show ?thesis using lo by simp
qed

section \<open>The recursive descent, bucket by bucket\<close>

lemma sp_loop_descend:
  assumes "k \<notin> visited" and "in_window cs (lower_bound cs 0 (length cs) tBegin) tEnd"
    and "next_window cs (lower_bound cs 0 (length cs) tBegin) tBegin tEnd ingoing = (t0, t1)"
  shows "sp_loop data ((k, cs) # rest) tBegin tEnd visited distance ingoing result =
         (case doShortestPaths data k t0 t1 visited (distance + 1) ingoing
                 (record_shortest result k distance
                    (rowid (cs ! lower_bound cs 0 (length cs) tBegin))) of
            None \<Rightarrow> None
          | Some result2 \<Rightarrow> sp_loop data rest tBegin tEnd visited distance ingoing result2)"
  using assms by (simp add: doShortestPaths_def Let_def split: option.splits)

lemma tc_loop_descend:
  assumes "k \<notin> visited" and "in_window cs (lower_bound cs 0 (length cs) tBegin) tEnd"
    and "next_window cs (lower_bound cs 0 (length cs) tBegin) tBegin tEnd ingoing = (t0, t1)"
    and "\<not> (maxDistance > 0 \<and> distance \<ge> maxDistance)"
  shows "tc_loop data ((k, cs) # rest) tBegin tEnd visited distance ingoing res maxDistance =
         (case doTraceContacts data k t0 t1 visited (distance + 1) ingoing
                 (push_range cs
                    [lower_bound cs 0 (length cs) tBegin ..<
                     upper_bound cs (lower_bound cs 0 (length cs) tBegin) (length cs) tEnd]
                    distance res) maxDistance of
            None \<Rightarrow> None
          | Some res2 \<Rightarrow> tc_loop data rest tBegin tEnd visited distance ingoing res2 maxDistance)"
  using assms by (auto simp: doTraceContacts_def Let_def split: option.splits)

lemma cc_loop_descend:
  assumes "Visit vs k tBegin tEnd ingoing = Some True"
    and "in_window cs (lower_bound cs 0 (length cs) tBegin) tEnd"
    and "next_window cs (lower_bound cs 0 (length cs) tBegin) tBegin tEnd ingoing = (t0, t1)"
  shows "cc_loop data ((k, cs) # rest) tBegin tEnd vs ingoing =
         (case contactChain data k t0 t1 vs ingoing of
            None \<Rightarrow> None
          | Some vs2 \<Rightarrow> cc_loop data rest tBegin tEnd vs2 ingoing)"
  using assms by (simp add: contactChain_def Let_def split: option.splits)

lemma next_window_spec:
  assumes "sorted (map timestamp cs)"
    and "in_window cs (lower_bound cs 0 (length cs) tBegin) tEnd"
  shows "next_window cs (lower_bound cs 0 (length cs) tBegin) tBegin tEnd ingoing =
         spec_window cs tBegin tEnd ingoing"
  using first_qualifying[OF assms] last_qualifying[OF assms lower_bound_le]
  by (simp add: next_window_def spec_window_def Let_def)

text \<open>
  C5.  Let a bucket \<open>(k, cs)\<close> be sorted by timestamp and qualify in the window
  \<open>[tBegin, tEnd]\<close>.  Then each of the three traversals, when it descends into \<open>k\<close>, calls
  itself with the window of the spec: ingoing \<open>[tBegin, timestamp of the last event of the
  bucket that is not after tEnd]\<close>, outgoing \<open>[timestamp of the first event of the bucket
  that is not before tBegin, tEnd]\<close>; and that window lies inside \<open>[tBegin, tEnd]\<close>.
\<close>

theorem descent_window:
  assumes "sorted (map timestamp cs)"
    and "in_window cs (lower_bound cs 0 (length cs) tBegin) tEnd"
    and "k \<notin> visited"
    and "\<not> (maxDistance > 0 \<and> distance \<ge> maxDistance)"
    and "Visit vs k tBegin tEnd ingoing = Some True"
    and "spec_window cs tBegin tEnd ingoing = (t0, t1)"
  shows "(ingoing \<longrightarrow> t0 = tBegin \<and>
            t1 = timestamp (last (filter (\<lambda>c. timestamp c \<le> tEnd) cs))) \<and>
         (\<not> ingoing \<longrightarrow> t1 = tEnd \<and>
            t0 = timestamp (hd (filter (\<lambda>c. tBegin \<le> timestamp c) cs))) \<and>
         tBegin \<le> t0 \<and> t1 \<le> tEnd \<and>
         sp_loop data ((k, cs) # rest) tBegin tEnd visited distance ingoing result =
           (case doShortestPaths data k t0 t1 visited (distance + 1) ingoing
                   (record_shortest result k distance
                      (rowid (cs ! lower_bound cs 0 (length cs) tBegin))) of
              None \<Rightarrow> None
            | Some result2 \<Rightarrow> sp_loop data rest tBegin tEnd visited distance ingoing result2) \<and>
         tc_loop data ((k, cs) # rest) tBegin tEnd visited distance ingoing res maxDistance =
           (case doTraceContacts data k t0 t1 visited (distance + 1) ingoing
                   (push_range cs
                      [lower_bound cs 0 (length cs) tBegin ..<
                       upper_bound cs (lower_bound cs 0 (length cs) tBegin) (length cs) tEnd]
                      distance res) maxDistance of
              None \<Rightarrow> None
            | Some res2 \<Rightarrow> tc_loop data rest tBegin tEnd visited distance ingoing res2 maxDistance) \<and>
         cc_loop data ((k, cs) # rest) tBegin tEnd vs ingoing =
           (case contactChain data k t0 t1 vs ingoing of
              None \<Rightarrow> None
            | Some vs2 \<Rightarrow> cc_loop data rest tBegin tEnd vs2 ingoing)"
proof -
  have nw: "next_window cs (lower_bound cs 0 (length cs) tBegin) tBegin tEnd ingoing = (t0, t1)"
    using next_window_spec[OF assms(1,2)] assms(6) by simp
  have "tBegin \<le> t0 \<and> t1 \<le> tEnd"
    using next_window_narrows[OF assms(2), of ingoing] nw by simp
  moreover have "(ingoing \<longrightarrow> t0 = tBegin \<and>
            t1 = timestamp (last (filter (\<lambda>c. timestamp c \<le> tEnd) cs))) \<and>
         (\<not> ingoing \<longrightarrow> t1 = tEnd \<and>
            t0 = timestamp (hd (filter (\<lambda>c. tBegin \<le> timestamp c) cs)))"
    using assms(6) by (auto simp: spec_window_def)
  ultimately show ?thesis
    using sp_loop_descend[OF assms(3,2) nw] tc_loop_descend[OF assms(3,2) nw assms(4)]
      cc_loop_descend[OF assms(5,2) nw]
    by simp
qed

theorem descent_window_witness:
  "sorted (map timestamp [\<lparr>rowid = 2, ident = 1, timestamp = 5\<rparr>,
                          \<lparr>rowid = 0, ident = 1, timestamp = 10\<rparr>,
                          \<lparr>rowid = 1, ident = 1, timestamp = 30\<rparr>]) \<and>
   spec_window [\<lparr>rowid = 2, ident = 1, timestamp = 5\<rparr>,
                \<lparr>rowid = 0, ident = 1, timestamp = 10\<rparr>,
                \<lparr>rowid = 1, ident = 1, timestamp = 30\<rparr>] 7 20 True = (7, 10) \<and>
   cc_loop [[(1, [\<lparr>rowid = 2, ident = 1, timestamp = 5\<rparr>,
                  \<lparr>rowid = 0, ident = 1, timestamp = 10\<rparr>,
                  \<lparr>rowid = 1, ident = 1, timestamp = 30\<rparr>])], []]
      [(1, [\<lparr>rowid = 2, ident = 1, timestamp = 5\<rparr>,
            \<lparr>rowid = 0, ident = 1, timestamp = 10\<rparr>,
            \<lparr>rowid = 1, ident = 1, timestamp = 30\<rparr>])] 7 20 (VisitedNodes_new 2) True =
     contactChain [[(1, [\<lparr>rowid = 2, ident = 1, timestamp = 5\<rparr>,
                  \<lparr>rowid = 0, ident = 1, timestamp = 10\<rparr>,
                  \<lparr>rowid = 1, ident = 1, timestamp = 30\<rparr>])], []] 1 7 10 (VisitedNodes_new 2) True"
proof -
  define cs where "cs = [\<lparr>rowid = 2, ident = 1, timestamp = 5\<rparr>,
                          \<lparr>rowid = 0, ident = 1, timestamp = 10\<rparr>,
                          \<lparr>rowid = 1, ident = 1, timestamp = (30::int)\<rparr>]"
  have lb: "lower_bound cs 0 (length cs) 7 = 1"
    unfolding cs_def by code_simp
  have h1: "sorted (map timestamp cs)" by (simp add: cs_def)
  have h2: "in_window cs (lower_bound cs 0 (length cs) 7) 20"
    unfolding lb by (simp add: in_window_def cs_def)
  have h3: "(1::int) \<notin> {0}" by simp
  have h4: "\<not> ((0::int) > 0 \<and> (1::int) \<ge> 0)" by simp
  have h5: "Visit (VisitedNodes_new 2) 1 7 20 True = Some True"
    by (simp add: Visit_def VisitedNodes_new_def vec_at_def numeral_2_eq_2)
  have h6: "spec_window cs 7 20 True = (7, 10)"
    by (simp add: spec_window_def cs_def)
  from descent_window[OF h1 h2 h3 h4 h5 h6, of "[[(1, cs)], []]" "[]" "[]" "([], [])"]
  have "cc_loop [[(1, cs)], []] [(1, cs)] 7 20 (VisitedNodes_new 2) True =
        (case contactChain [[(1, cs)], []] 1 7 10 (VisitedNodes_new 2) True of
           None \<Rightarrow> None | Some vs2 \<Rightarrow> cc_loop [[(1, cs)], []] [] 7 20 vs2 True)"
    by blast
  then have "cc_loop [[(1, cs)], []] [(1, cs)] 7 20 (VisitedNodes_new 2) True =
        contactChain [[(1, cs)], []] 1 7 10 (VisitedNodes_new 2) True"
    by (simp split: option.splits)
  with h1 h6 show ?thesis unfolding cs_def by simp
qed

lemma Update_progress:
  assumes "Visit vs k tBegin tEnd ingoing = Some True"
    and "Update vs k tBegin tEnd ingoing = Some vs1"
  shows "vs1 \<noteq> vs"
proof
  assume e: "vs1 = vs"
  obtain en where en: "vec_at (visitedNodes vs) k = Some en"
    using assms(1) by (auto simp: Visit_def split: option.splits)
  then have k: "0 \<le> k" "nat k < length (visitedNodes vs)" "visitedNodes vs ! nat k = en"
    by (auto simp: vec_at_def split: if_splits)
  show False
  proof (cases "fst en")
    case False
    with assms(2) en e k have "numberOfVisitedNodes vs = numberOfVisitedNodes vs + 1"
      by (auto simp: Update_def dest: arg_cong[where f=numberOfVisitedNodes])
    then show False by simp
  next
    case True
    with assms en have "visitedNodes vs1 ! nat k = (True, if ingoing then tEnd else tBegin)"
      "snd en \<noteq> (if ingoing then tEnd else tBegin)"
      using k by (auto simp: Update_def Visit_def split: if_splits)
    with e k show False by auto
  qed
qed

text \<open>
  C9.  Each of the three traversals terminates on every input: every argument tuple of
  \<open>sp_loop\<close>, \<open>tc_loop\<close> and \<open>cc_loop\<close> is in the accessible part of the relation "is
  called by" (the domain predicates of the three recursive definitions).  In the two
  path-based traversals a descent adds a neighbour that was not on the path, so the number
  of nodes that are keys of the index and not on the path (\<open>sp_measure\<close>) goes down.  A
  descent never enlarges the window.  In the contact chain it goes ahead only where
  \<open>Visit\<close> allows it (otherwise the bucket is pruned), and then either the window
  changes, so it strictly shrinks, or the \<open>Update\<close> of the callee changes the visitation state.
\<close>

theorem traversals_terminate:
  "sp_loop_dom (data, m, tBegin, tEnd, visited, distance, ingoing, result) \<and>
   tc_loop_dom (data, m, tBegin, tEnd, visited, distance, ingoing, res, maxDistance) \<and>
   cc_loop_dom (data, m, tBegin, tEnd, vs, ingoing) \<and>
   (k \<notin> visited \<and> vec_at data k = Some m' \<longrightarrow>
      sp_measure data m' (insert k visited) < sp_measure data ((k, cs) # rest) visited) \<and>
   (in_window cs (lower_bound cs 0 (length cs) tBegin) tEnd \<longrightarrow>
      tBegin \<le> fst (next_window cs (lower_bound cs 0 (length cs) tBegin) tBegin tEnd ingoing) \<and>
      snd (next_window cs (lower_bound cs 0 (length cs) tBegin) tBegin tEnd ingoing) \<le> tEnd \<and>
      (Visit vs k tBegin tEnd ingoing = Some False \<longrightarrow>
         cc_loop data ((k, cs) # rest) tBegin tEnd vs ingoing =
         cc_loop data rest tBegin tEnd vs ingoing) \<and>
      (\<forall>vs1. Visit vs k tBegin tEnd ingoing = Some True \<and>
         Update vs k
           (fst (next_window cs (lower_bound cs 0 (length cs) tBegin) tBegin tEnd ingoing))
           (snd (next_window cs (lower_bound cs 0 (length cs) tBegin) tBegin tEnd ingoing))
           ingoing = Some vs1 \<longrightarrow>
         next_window cs (lower_bound cs 0 (length cs) tBegin) tBegin tEnd ingoing
           \<noteq> (tBegin, tEnd) \<or> vs1 \<noteq> vs))"
proof -
  have "sp_loop_dom (data, m, tBegin, tEnd, visited, distance, ingoing, result)"
    using sp_loop_all_dom by blast
  moreover have "tc_loop_dom (data, m, tBegin, tEnd, visited, distance, ingoing, res, maxDistance)"
    using tc_loop_all_dom by blast
  moreover have "cc_loop_dom (data, m, tBegin, tEnd, vs, ingoing)"
    using cc_loop_all_dom by blast
  moreover have "k \<notin> visited \<and> vec_at data k = Some m' \<longrightarrow>
      sp_measure data m' (insert k visited) < sp_measure data ((k, cs) # rest) visited"
    using sp_measure_inner by blast
  moreover have "Visit vs k tBegin tEnd ingoing = Some False \<longrightarrow>
         cc_loop data ((k, cs) # rest) tBegin tEnd vs ingoing =
         cc_loop data rest tBegin tEnd vs ingoing"
    by simp
  moreover have "Visit vs k tBegin tEnd ingoing = Some True \<and>
         Update vs k (fst w) (snd w) ingoing = Some vs1 \<longrightarrow> w \<noteq> (tBegin, tEnd) \<or> vs1 \<noteq> vs"
    for w vs1
    using Update_progress[of vs k tBegin tEnd ingoing vs1] by (cases w) auto
  ultimately show ?thesis
    using next_window_narrows[of cs tBegin tEnd ingoing] by blast
qed

theorem traversals_terminate_witness:
  "in_window [\<lparr>rowid = 2, ident = 1, timestamp = 5\<rparr>, \<lparr>rowid = 0, ident = 1, timestamp = 10\<rparr>]
     (lower_bound [\<lparr>rowid = 2, ident = 1, timestamp = 5\<rparr>, \<lparr>rowid = 0, ident = 1, timestamp = 10\<rparr>]
        0 2 7) 20 \<and>
   Visit (VisitedNodes_new 2) 1 7 20 True = Some True \<and>
   Update (VisitedNodes_new 2) 1 7 10 True
     = Some \<lparr>numberOfVisitedNodes = 1, visitedNodes = [(False, 0), (True, 10)]\<rparr> \<and>
   next_window [\<lparr>rowid = 2, ident = 1, timestamp = 5\<rparr>, \<lparr>rowid = 0, ident = 1, timestamp = 10\<rparr>]
     (lower_bound [\<lparr>rowid = 2, ident = 1, timestamp = 5\<rparr>, \<lparr>rowid = 0, ident = 1, timestamp = 10\<rparr>]
        0 2 7) 7 20 True = (7, 10) \<and>
   Visit \<lparr>numberOfVisitedNodes = 1, visitedNodes = [(False, 0), (True, 10)]\<rparr> 1 7 10 True
     = Some False \<and>
   cc_loop [[], []]
     [(1, [\<lparr>rowid = 2, ident = 1, timestamp = 5\<rparr>, \<lparr>rowid = 0, ident = 1, timestamp = 10\<rparr>])]
     7 10 \<lparr>numberOfVisitedNodes = 1, visitedNodes = [(False, 0), (True, 10)]\<rparr> True
     = Some \<lparr>numberOfVisitedNodes = 1, visitedNodes = [(False, 0), (True, 10)]\<rparr> \<and>
   sp_measure [[], []] [] (insert 1 {})
     < sp_measure [[], []]
         [(1, [\<lparr>rowid = 2, ident = 1, timestamp = 5\<rparr>, \<lparr>rowid = 0, ident = 1, timestamp = 10\<rparr>])] {}"
proof -
  define cs where "cs = [\<lparr>rowid = 2, ident = 1, timestamp = 5\<rparr>,
                          \<lparr>rowid = 0, ident = 1, timestamp = (10::int)\<rparr>]"
  define vs1 where "vs1 = \<lparr>numberOfVisitedNodes = 1, visitedNodes = [(False, 0), (True, 10::int)]\<rparr>"
  have len: "length cs = 2" by (simp add: cs_def)
  have lb: "lower_bound cs 0 2 7 = 1"
    unfolding cs_def by code_simp
  have g1: "in_window cs (lower_bound cs 0 2 7) 20"
    unfolding lb by (simp add: in_window_def cs_def)
  have "next_window cs 1 7 20 True = (7, 10)"
    unfolding cs_def by code_simp
  then have g2: "next_window cs (lower_bound cs 0 2 7) 7 20 True = (7, 10)"
    unfolding lb .
  have h2: "Visit (VisitedNodes_new 2) 1 7 20 True = Some True"
    by (simp add: Visit_def VisitedNodes_new_def vec_at_def numeral_2_eq_2)
  have h3: "Update (VisitedNodes_new 2) 1 7 10 True = Some vs1"
    by (simp add: Update_def VisitedNodes_new_def vec_at_def numeral_2_eq_2 vs1_def)
  have h4: "Visit vs1 1 7 10 True = Some False"
    by (simp add: Visit_def vec_at_def vs1_def)
  have g5: "in_window cs (lower_bound cs 0 2 7) 10"
    unfolding lb by (simp add: in_window_def cs_def)
  from traversals_terminate[where data = "[[], []]" and tBegin = 7 and tEnd = 10 and
      ingoing = True and vs = vs1 and cs = cs and k = 1 and rest = "[]"] h4 g5
  have "cc_loop [[], []] [(1, cs)] 7 10 vs1 True = cc_loop [[], []] [] 7 10 vs1 True"
    unfolding len by blast
  then have g6: "cc_loop [[], []] [(1, cs)] 7 10 vs1 True = Some vs1"
    by simp
  from traversals_terminate[where data = "[[], []]" and tBegin = 7 and tEnd = 20 and
      ingoing = True and vs = "VisitedNodes_new 2" and cs = cs and k = 1 and rest = "[]"]
    g1 h2 h3 g2
  have "(7::int, 10::int) \<noteq> (7, 20) \<or> vs1 \<noteq> VisitedNodes_new 2"
    unfolding len by (metis fst_conv snd_conv)
  have h6: "(1::int) \<notin> {}" "vec_at [[], []] 1 = Some ([] :: Contacts intmap)"
    by (simp_all add: vec_at_def)
  from traversals_terminate[where data = "[[], []]" and visited = "{}" and k = 1 and m' = "[]"
      and cs = cs and rest = "[]"] h6
  have g7: "sp_measure [[], []] [] (insert 1 {}) < sp_measure [[], []] [(1, cs)] {}"
    by blast
  from g1 h2 h3 g2 h4 g6 g7 show ?thesis
    unfolding cs_def vs1_def by blast
qed

section \<open>What buildContactsLookup establishes\<close>

lemma buckets_of_empty_lookup [simp]: "buckets_of (empty_lookup n) = {}"
  by (auto simp: buckets_of_def empty_lookup_def)

lemma map_set_subset: "set (map_set k v m) \<subseteq> insert (k, v) (set m)"
  by (induction m) (auto split: if_splits)

lemma push_back_at_bucket:
  assumes "(k', cs') \<in> set (push_back_at k c m)"
  shows "(k', cs') \<in> set m \<or> (\<exists>cs. cs' = cs @ [c] \<and> (cs = [] \<or> (k, cs) \<in> set m))"
proof (cases "map_of m k")
  case None
  with assms map_set_subset[of k "[c]" m] show ?thesis
    by (auto simp: push_back_at_def)
next
  case (Some cs)
  then have "(k, cs) \<in> set m" by (rule map_of_SomeD)
  with assms Some map_set_subset[of k "cs @ [c]" m] show ?thesis
    by (auto simp: push_back_at_def)
qed

lemma buckets_of_update:
  assumes "cs' \<in> buckets_of (data[i := push_back_at k c m])" and "i < length data" and "data ! i = m"
  shows "cs' \<in> buckets_of data \<or>
         (\<exists>cs. cs' = cs @ [c] \<and> (cs = [] \<or> cs \<in> buckets_of data))"
proof -
  from assms(1) obtain m' k' where m': "m' \<in> set (data[i := push_back_at k c m])" "(k', cs') \<in> set m'"
    by (auto simp: buckets_of_def)
  have mem: "m \<in> set data" using assms(2,3) by auto
  from m'(1) have "m' = push_back_at k c m \<or> m' \<in> set data"
    using set_update_subset_insert[of data i] by auto
  then show ?thesis
  proof
    assume "m' = push_back_at k c m"
    with m'(2) push_back_at_bucket[of k' cs' k c m] mem show ?thesis
      by (auto simp: buckets_of_def)
  next
    assume "m' \<in> set data"
    with m'(2) show ?thesis by (auto simp: buckets_of_def)
  qed
qed

lemma build_step_buckets:
  assumes "build_step src dst ts j io = Some io'"
    and "cs' \<in> buckets_of (fst io') \<union> buckets_of (snd io')"
  shows "cs' \<in> buckets_of (fst io) \<union> buckets_of (snd io) \<or>
         (\<exists>cs c. cs' = cs @ [c] \<and> rowid c = int j \<and> timestamp c = ts ! j \<and>
                 (cs = [] \<or> cs \<in> buckets_of (fst io) \<union> buckets_of (snd io)))"
proof -
  let ?zs = "src ! j - 1" and ?zd = "dst ! j - 1"
  from assms(1) obtain mi mo where
    mi: "vec_at (fst io) ?zd = Some mi" and mo: "vec_at (snd io) ?zs = Some mo" and
    io': "io' = ((fst io)[nat ?zd := push_back_at ?zs
                     \<lparr>rowid = int j, ident = ?zs, timestamp = ts ! j\<rparr> mi],
                 (snd io)[nat ?zs := push_back_at ?zd
                     \<lparr>rowid = int j, ident = ?zd, timestamp = ts ! j\<rparr> mo])"
    by (auto simp: build_step_def Let_def split: if_splits option.splits)
  from mi have i: "nat ?zd < length (fst io)" "fst io ! nat ?zd = mi"
    by (auto simp: vec_at_def split: if_splits)
  from mo have o: "nat ?zs < length (snd io)" "snd io ! nat ?zs = mo"
    by (auto simp: vec_at_def split: if_splits)
  from assms(2) show ?thesis
  proof
    assume "cs' \<in> buckets_of (fst io')"
    from buckets_of_update[OF this[unfolded io' fst_conv] i] show ?thesis by force
  next
    assume "cs' \<in> buckets_of (snd io')"
    from buckets_of_update[OF this[unfolded io' snd_conv] o] show ?thesis by force
  qed
qed

lemma build_loop_sorted:
  "build_loop src dst ts js io = Some io' \<Longrightarrow> sorted (map (\<lambda>j. ts ! j) js) \<Longrightarrow>
   \<forall>cs \<in> buckets_of (fst io) \<union> buckets_of (snd io).
      sorted (map timestamp cs) \<and> (\<forall>c \<in> set cs. \<forall>j \<in> set js. timestamp c \<le> ts ! j) \<Longrightarrow>
   \<forall>cs \<in> buckets_of (fst io') \<union> buckets_of (snd io'). sorted (map timestamp cs)"
proof (induction js arbitrary: io)
  case Nil
  then show ?case by simp
next
  case (Cons j js)
  from Cons.prems(1) obtain io1 where
    st: "build_step src dst ts j io = Some io1" and lp: "build_loop src dst ts js io1 = Some io'"
    by (auto split: option.splits)
  have srt: "sorted (map (\<lambda>j. ts ! j) js)" and le: "\<forall>j' \<in> set js. ts ! j \<le> ts ! j'"
    using Cons.prems(2) by auto
  have "\<forall>cs \<in> buckets_of (fst io1) \<union> buckets_of (snd io1).
      sorted (map timestamp cs) \<and> (\<forall>c \<in> set cs. \<forall>j \<in> set js. timestamp c \<le> ts ! j)"
  proof
    fix cs' assume "cs' \<in> buckets_of (fst io1) \<union> buckets_of (snd io1)"
    from build_step_buckets[OF st this] consider
      (old) "cs' \<in> buckets_of (fst io) \<union> buckets_of (snd io)" |
      (new) cs c where "cs' = cs @ [c]" "timestamp c = ts ! j"
        "cs = [] \<or> cs \<in> buckets_of (fst io) \<union> buckets_of (snd io)"
      by blast
    then show
      "sorted (map timestamp cs') \<and> (\<forall>c \<in> set cs'. \<forall>j \<in> set js. timestamp c \<le> ts ! j)"
    proof cases
      case old
      with Cons.prems(3) show ?thesis by auto
    next
      case c: (new cs c)
      then have "sorted (map timestamp cs) \<and> (\<forall>c \<in> set cs. \<forall>j \<in> set (j # js). timestamp c \<le> ts ! j)"
        using Cons.prems(3) by auto
      with c le show ?thesis by (auto simp: sorted_append)
    qed
  qed
  from Cons.IH[OF lp srt this] show ?case .
qed

text \<open>
  C8.  After the construction from empty lookups, every bucket of the ingoing and of the
  outgoing index is non-decreasing in timestamp, and on every such bucket the bisection
  \<open>lower_bound\<close> returns, for any \<open>tBegin\<close>, the position that the linear scan for the
  first event with timestamp at least \<open>tBegin\<close> returns.  The traversals take the
  index as an argument and return only their results, so nothing changes a bucket later.
\<close>

theorem index_buckets_sorted:
  assumes "buildContactsLookup malloc_ok (empty_lookup n) (empty_lookup n) src dst ts
             = Some (rc, ingoing, outgoing)"
  shows "\<forall>data \<in> {ingoing, outgoing}. \<forall>m \<in> set data. \<forall>kc \<in> set m.
           sorted (map timestamp (snd kc)) \<and>
           (\<forall>tBegin. lower_bound (snd kc) 0 (length (snd kc)) tBegin = linear_scan (snd kc) tBegin)"
proof -
  have "\<forall>cs \<in> buckets_of ingoing \<union> buckets_of outgoing. sorted (map timestamp cs)"
  proof (cases malloc_ok)
    case False
    with assms show ?thesis by (auto simp: buildContactsLookup_def)
  next
    case True
    with assms have "build_loop src dst ts (R_orderVector ts) (empty_lookup n, empty_lookup n)
                       = Some (ingoing, outgoing)"
      by (auto simp: buildContactsLookup_def split: option.splits)
    from build_loop_sorted[OF this] show ?thesis
      by (simp add: R_orderVector_def)
  qed
  then have "\<forall>data \<in> {ingoing, outgoing}. \<forall>m \<in> set data. \<forall>kc \<in> set m.
           sorted (map timestamp (snd kc))"
    by (fastforce simp: buckets_of_def)
  then show ?thesis
    using lower_bound_linear_scan by blast
qed

theorem index_buckets_sorted_witness:
  "buildContactsLookup True (empty_lookup 3) (empty_lookup 3) [1, 2, 1, 1] [2, 3, 3, 2] [10, 20, 5, 7]
     = Some (0,
         [[],
          [(0, [\<lparr>rowid = 3, ident = 0, timestamp = 7\<rparr>, \<lparr>rowid = 0, ident = 0, timestamp = 10\<rparr>])],
          [(0, [\<lparr>rowid = 2, ident = 0, timestamp = 5\<rparr>]),
           (1, [\<lparr>rowid = 1, ident = 1, timestamp = 20\<rparr>])]],
         [[(1, [\<lparr>rowid = 3, ident = 1, timestamp = 7\<rparr>, \<lparr>rowid = 0, ident = 1, timestamp = 10\<rparr>]),
           (2, [\<lparr>rowid = 2, ident = 2, timestamp = 5\<rparr>])],
          [(2, [\<lparr>rowid = 1, ident = 2, timestamp = 20\<rparr>])],
          []]) \<and>
   lower_bound [\<lparr>rowid = 3, ident = 0, timestamp = 7\<rparr>, \<lparr>rowid = 0, ident = 0, timestamp = 10\<rparr>] 0
       (length [\<lparr>rowid = 3, ident = 0, timestamp = 7\<rparr>, \<lparr>rowid = 0, ident = 0, timestamp = 10\<rparr>]) 8
     = linear_scan [\<lparr>rowid = 3, ident = 0, timestamp = 7\<rparr>, \<lparr>rowid = 0, ident = 0, timestamp = 10\<rparr>] 8"
proof -
  have b: "buildContactsLookup True (empty_lookup 3) (empty_lookup 3) [1, 2, 1, 1] [2, 3, 3, 2] [10, 20, 5, 7]
     = Some (0,
         [[],
          [(0, [\<lparr>rowid = 3, ident = 0, timestamp = 7\<rparr>, \<lparr>rowid = 0, ident = 0, timestamp = 10\<rparr>])],
          [(0, [\<lparr>rowid = 2, ident = 0, timestamp = 5\<rparr>]),
           (1, [\<lparr>rowid = 1, ident = 1, timestamp = 20\<rparr>])]],
         [[(1, [\<lparr>rowid = 3, ident = 1, timestamp = 7\<rparr>, \<lparr>rowid = 0, ident = 1, timestamp = 10\<rparr>]),
           (2, [\<lparr>rowid = 2, ident = 2, timestamp = 5\<rparr>])],
          [(2, [\<lparr>rowid = 1, ident = 2, timestamp = 20\<rparr>])],
          []])"
    by code_simp
  from index_buckets_sorted[OF b] have
    "lower_bound [\<lparr>rowid = 3, ident = 0, timestamp = 7\<rparr>, \<lparr>rowid = 0, ident = 0, timestamp = 10\<rparr>] 0
       (length [\<lparr>rowid = 3, ident = 0, timestamp = 7\<rparr>, \<lparr>rowid = 0, ident = 0, timestamp = 10\<rparr>]) 8
     = linear_scan [\<lparr>rowid = 3, ident = 0, timestamp = 7\<rparr>, \<lparr>rowid = 0, ident = 0, timestamp = 10\<rparr>] 8"
    by force
  with b show ?thesis by blast
qed

section \<open>Row ids\<close>

lemma build_loop_rowids:
  "build_loop src dst ts js io = Some io' \<Longrightarrow>
   \<forall>cs \<in> buckets_of (fst io) \<union> buckets_of (snd io). \<forall>c \<in> set cs. rowid c \<in> int ` set js0 \<Longrightarrow>
   set js \<subseteq> set js0 \<Longrightarrow>
   \<forall>cs \<in> buckets_of (fst io') \<union> buckets_of (snd io'). \<forall>c \<in> set cs. rowid c \<in> int ` set js0"
proof (induction js arbitrary: io)
  case Nil
  then show ?case by simp
next
  case (Cons j js)
  from Cons.prems(1) obtain io1 where
    st: "build_step src dst ts j io = Some io1" and lp: "build_loop src dst ts js io1 = Some io'"
    by (auto split: option.splits)
  have "\<forall>cs \<in> buckets_of (fst io1) \<union> buckets_of (snd io1). \<forall>c \<in> set cs. rowid c \<in> int ` set js0"
  proof
    fix cs' assume "cs' \<in> buckets_of (fst io1) \<union> buckets_of (snd io1)"
    from build_step_buckets[OF st this] consider
      (old) "cs' \<in> buckets_of (fst io) \<union> buckets_of (snd io)" |
      (new) cs c where "cs' = cs @ [c]" "rowid c = int j"
        "cs = [] \<or> cs \<in> buckets_of (fst io) \<union> buckets_of (snd io)"
      by blast
    then show "\<forall>c \<in> set cs'. rowid c \<in> int ` set js0"
    proof cases
      case old
      with Cons.prems(2) show ?thesis by auto
    next
      case c: (new cs c)
      then have "\<forall>c \<in> set cs. rowid c \<in> int ` set js0"
        using Cons.prems(2) by auto
      with c Cons.prems(3) show ?thesis by auto
    qed
  qed
  from Cons.IH[OF lp this] Cons.prems(3) show ?case by simp
qed

lemma build_rowids:
  assumes "buildContactsLookup malloc_ok (empty_lookup n) (empty_lookup n) src dst ts
             = Some (rc, ingoing, outgoing)"
  shows "\<forall>cs \<in> buckets_of ingoing \<union> buckets_of outgoing. \<forall>c \<in> set cs. valid_id ts (rowid c + 1)"
proof (cases malloc_ok)
  case False
  with assms show ?thesis by (auto simp: buildContactsLookup_def)
next
  case True
  with assms have "build_loop src dst ts (R_orderVector ts) (empty_lookup n, empty_lookup n)
                     = Some (ingoing, outgoing)"
    by (auto simp: buildContactsLookup_def split: option.splits)
  from build_loop_rowids[OF this, of "R_orderVector ts"]
  have "\<forall>cs \<in> buckets_of ingoing \<union> buckets_of outgoing. \<forall>c \<in> set cs.
          rowid c \<in> int ` {0..<length ts}"
    by (simp add: R_orderVector_def)
  then show ?thesis by (fastforce simp: valid_id_def)
qed

lemma vec_at_buckets:
  "vec_at data k = Some m \<Longrightarrow> snd ` set m \<subseteq> buckets_of data"
  by (force simp: buckets_of_def dest: vec_at_mem)

lemma in_window_nth_mem:
  "in_window cs (lower_bound cs 0 (length cs) tBegin) tEnd \<Longrightarrow>
   cs ! lower_bound cs 0 (length cs) tBegin \<in> set cs"
  using lower_bound_le[of cs tBegin] by (simp add: in_window_def)

lemma push_range_eq:
  "push_range cs is distance res =
     (fst res @ map (\<lambda>i. rowid (cs ! i) + 1) is, snd res @ replicate (length is) distance)"
  by (induction "is" arbitrary: res) (simp_all add: replicate_app_Cons_same)

lemma record_shortest_subset:
  "set (record_shortest result k distance rid) \<subseteq> insert (k, distance, rid + 1) (set result)"
  using map_set_subset[of k "(distance, rid + 1)" result]
  by (auto simp: record_shortest_def split: option.splits if_splits)

lemma sp_loop_rowids:
  "sp_loop data m tBegin tEnd visited distance ingoing result = Some result' \<Longrightarrow>
   \<forall>cs \<in> buckets_of data \<union> snd ` set m. \<forall>c \<in> set cs. Q (rowid c + 1) \<Longrightarrow>
   \<forall>e \<in> set result. Q (snd (snd e)) \<Longrightarrow>
   \<forall>e \<in> set result'. Q (snd (snd e))"
proof (induction data m tBegin tEnd visited distance ingoing result arbitrary: result'
       rule: sp_loop.induct)
  case (1 data tBegin tEnd visited distance ingoing result)
  then show ?case by simp
next
  case (2 data k cs rest tBegin tEnd visited distance ingoing result)
  define p where "p = lower_bound cs 0 (length cs) tBegin"
  define r1 where "r1 = record_shortest result k distance (rowid (cs ! p))"
  define w where "w = next_window cs p tBegin tEnd ingoing"
  have rest: "\<forall>cs \<in> buckets_of data \<union> snd ` set rest. \<forall>c \<in> set cs. Q (rowid c + 1)"
    using "2.prems"(2) by auto
  show ?case
  proof (cases "k \<notin> visited \<and> in_window cs p tEnd")
    case False
    then have "sp_loop data rest tBegin tEnd visited distance ingoing result = Some result'"
      using "2.prems"(1) by (auto simp: Let_def p_def split: if_splits)
    with False "2.IH"(3)[OF _ p_def _ this rest "2.prems"(3)]
      "2.IH"(4)[OF _ this rest "2.prems"(3)]
    show ?thesis by blast
  next
    case True
    then have kv: "k \<notin> visited" and iw: "in_window cs p tEnd" by simp_all
    from "2.prems"(1) kv iw obtain m r2 where
      v: "vec_at data k = Some m" and
      i: "sp_loop data m (fst w) (snd w) (insert k visited) (distance + 1) ingoing r1 = Some r2" and
      r: "sp_loop data rest tBegin tEnd visited distance ingoing r2 = Some result'"
      by (auto simp: Let_def p_def[symmetric] w_def[symmetric] r1_def[symmetric]
               split: option.splits)
    have "cs ! p \<in> set cs" using iw in_window_nth_mem[of cs tBegin tEnd] by (simp add: p_def)
    then have "Q (rowid (cs ! p) + 1)" using "2.prems"(2) by simp
    then have q1: "\<forall>e \<in> set r1. Q (snd (snd e))"
      using record_shortest_subset[of result k distance "rowid (cs ! p)"] "2.prems"(3)
      by (auto simp: r1_def)
    have inner: "\<forall>cs \<in> buckets_of data \<union> snd ` set m. \<forall>c \<in> set cs. Q (rowid c + 1)"
      using "2.prems"(2) vec_at_buckets[OF v] by auto
    have "\<forall>e \<in> set r2. Q (snd (snd e))"
      by (rule "2.IH"(1)[OF kv p_def iw r1_def w_def v i inner q1])
    then show ?thesis
      by (rule "2.IH"(2)[OF kv p_def iw r1_def w_def v i r rest])
  qed
qed

lemma tc_loop_rowids:
  "tc_loop data m tBegin tEnd visited distance ingoing res maxDistance = Some res' \<Longrightarrow>
   \<forall>cs \<in> buckets_of data \<union> snd ` set m. \<forall>c \<in> set cs. Q (rowid c + 1) \<Longrightarrow>
   length (fst res) = length (snd res) \<and> (\<forall>x \<in> set (fst res). Q x) \<Longrightarrow>
   length (fst res') = length (snd res') \<and> (\<forall>x \<in> set (fst res'). Q x)"
proof (induction data m tBegin tEnd visited distance ingoing res maxDistance arbitrary: res'
       rule: tc_loop.induct)
  case (1 data tBegin tEnd visited distance ingoing res maxDistance)
  then show ?case by simp
next
  case (2 data k cs rest tBegin tEnd visited distance ingoing res maxDistance)
  define p where "p = lower_bound cs 0 (length cs) tBegin"
  define q where "q = upper_bound cs p (length cs) tEnd"
  define r1 where "r1 = push_range cs [p..<q] distance res"
  define w where "w = next_window cs p tBegin tEnd ingoing"
  have rest: "\<forall>cs \<in> buckets_of data \<union> snd ` set rest. \<forall>c \<in> set cs. Q (rowid c + 1)"
    using "2.prems"(2) by auto
  show ?case
  proof (cases "k \<notin> visited \<and> in_window cs p tEnd")
    case False
    then have "tc_loop data rest tBegin tEnd visited distance ingoing res maxDistance = Some res'"
      using "2.prems"(1) by (auto simp: Let_def p_def split: if_splits)
    with False "2.IH"(4)[OF _ p_def _ this rest "2.prems"(3)]
      "2.IH"(5)[OF _ this rest "2.prems"(3)]
    show ?thesis by blast
  next
    case True
    then have kv: "k \<notin> visited" and iw: "in_window cs p tEnd" by simp_all
    have "q \<le> length cs"
      using upper_bound_after[OF iw] lower_bound_le[of cs tBegin] by (simp add: p_def q_def)
    then have "\<forall>i \<in> set [p..<q]. cs ! i \<in> set cs" by auto
    then have "\<forall>i \<in> set [p..<q]. Q (rowid (cs ! i) + 1)" using "2.prems"(2) by simp
    then have q1: "length (fst r1) = length (snd r1) \<and> (\<forall>x \<in> set (fst r1). Q x)"
      using "2.prems"(3) by (auto simp: r1_def push_range_eq)
    show ?thesis
    proof (cases "maxDistance > 0 \<and> distance \<ge> maxDistance")
      case cap: True
      then have "tc_loop data rest tBegin tEnd visited distance ingoing r1 maxDistance = Some res'"
        using "2.prems"(1) kv iw
        by (auto simp: Let_def p_def[symmetric] q_def[symmetric] r1_def[symmetric])
      from "2.IH"(1)[OF kv p_def iw q_def r1_def cap this rest q1] show ?thesis .
    next
      case cap: False
      from "2.prems"(1) kv iw cap obtain m r2 where
        v: "vec_at data k = Some m" and
        i: "tc_loop data m (fst w) (snd w) (insert k visited) (distance + 1) ingoing r1 maxDistance
              = Some r2" and
        r: "tc_loop data rest tBegin tEnd visited distance ingoing r2 maxDistance = Some res'"
        by (auto simp: Let_def p_def[symmetric] q_def[symmetric] w_def[symmetric]
              r1_def[symmetric] split: option.splits)
      have inner: "\<forall>cs \<in> buckets_of data \<union> snd ` set m. \<forall>c \<in> set cs. Q (rowid c + 1)"
        using "2.prems"(2) vec_at_buckets[OF v] by auto
      have "length (fst r2) = length (snd r2) \<and> (\<forall>x \<in> set (fst r2). Q x)"
        by (rule "2.IH"(2)[OF kv p_def iw q_def r1_def cap w_def v i inner q1])
      then show ?thesis
        by (rule "2.IH"(3)[OF kv p_def iw q_def r1_def cap w_def v i r rest])
    qed
  qed
qed

lemma doTraceContacts_rowids:
  assumes "doTraceContacts data node tBegin tEnd visited distance ingoing ([], []) maxDistance
             = Some res'"
    and "\<forall>cs \<in> buckets_of data. \<forall>c \<in> set cs. Q (rowid c + 1)"
  shows "length (fst res') = length (snd res') \<and> (\<forall>x \<in> set (fst res'). Q x)"
proof -
  from assms(1) obtain m where v: "vec_at data node = Some m" and
    l: "tc_loop data m tBegin tEnd (insert node visited) distance ingoing ([], []) maxDistance
          = Some res'"
    by (auto simp: doTraceContacts_def split: option.splits)
  have "\<forall>cs \<in> buckets_of data \<union> snd ` set m. \<forall>c \<in> set cs. Q (rowid c + 1)"
    using assms(2) vec_at_buckets[OF v] by auto
  from tc_loop_rowids[OF l this] show ?thesis by simp
qed

lemma traceContacts_root_good:
  assumes "traceContacts_root ingoing outgoing root inBegin inEnd outBegin outEnd maxDistance i
             = Some b"
    and "\<forall>cs \<in> buckets_of ingoing \<union> buckets_of outgoing. \<forall>c \<in> set cs. valid_id ts (rowid c + 1)"
  shows "good_block ts b"
proof -
  from assms(1) obtain r ib ie ob oe rin rout where
    i: "doTraceContacts ingoing (r - 1) ib ie {} 1 True ([], []) maxDistance = Some rin" and
    o: "doTraceContacts outgoing (r - 1) ob oe {} 1 False ([], []) maxDistance = Some rout" and
    b: "b = [fst rin, snd rin, fst rout, snd rout]"
    by (auto simp: traceContacts_root_def split: option.splits)
  have "length (fst rin) = length (snd rin) \<and> (\<forall>x \<in> set (fst rin). valid_id ts x)"
    using assms(2) by (intro doTraceContacts_rowids[OF i]) blast
  moreover have "length (fst rout) = length (snd rout) \<and> (\<forall>x \<in> set (fst rout). valid_id ts x)"
    using assms(2) by (intro doTraceContacts_rowids[OF o]) blast
  ultimately show ?thesis using b by (auto simp: good_block_def)
qed

lemma traceContacts_loop_blocks:
  "traceContacts_loop ingoing outgoing root inBegin inEnd outBegin outEnd maxDistance is acc
     = Some r \<Longrightarrow>
   \<forall>cs \<in> buckets_of ingoing \<union> buckets_of outgoing. \<forall>c \<in> set cs. valid_id ts (rowid c + 1) \<Longrightarrow>
   \<exists>blocks. r = acc @ concat blocks \<and> length blocks = length is \<and>
            (\<forall>b \<in> set blocks. good_block ts b)"
proof (induction "is" arbitrary: acc)
  case Nil
  then show ?case by simp
next
  case (Cons i "is")
  from Cons.prems(1) obtain b where
    b: "traceContacts_root ingoing outgoing root inBegin inEnd outBegin outEnd maxDistance i = Some b"
    and l: "traceContacts_loop ingoing outgoing root inBegin inEnd outBegin outEnd maxDistance is
              (acc @ b) = Some r"
    by (auto split: option.splits)
  from Cons.IH[OF l Cons.prems(2)] obtain blocks where
    "r = (acc @ b) @ concat blocks" "length blocks = length is" "\<forall>b \<in> set blocks. good_block ts b"
    by blast
  with traceContacts_root_good[OF b Cons.prems(2)]
  have "r = acc @ concat (b # blocks) \<and> length (b # blocks) = length (i # is) \<and>
        (\<forall>b \<in> set (b # blocks). good_block ts b)"
    by simp
  then show ?case by blast
qed

lemma concat_nth4:
  "\<forall>b \<in> set bs. length b = 4 \<Longrightarrow> i < length bs \<Longrightarrow> c < 4 \<Longrightarrow>
   concat bs ! (4 * i + c) = bs ! i ! c"
proof (induction bs arbitrary: i)
  case Nil
  then show ?case by simp
next
  case (Cons b bs)
  show ?case
  proof (cases i)
    case 0
    with Cons.prems show ?thesis by (simp add: nth_append)
  next
    case (Suc i')
    with Cons.prems Cons.IH[of i'] show ?thesis by (simp add: nth_append)
  qed
qed

lemma length_concat4: "\<forall>b \<in> set bs. length b = 4 \<Longrightarrow> length (concat bs) = 4 * length bs"
  by (induction bs) auto

lemma doShortestPaths_rowids:
  assumes "doShortestPaths data node tBegin tEnd visited distance ingoing [] = Some res'"
    and "\<forall>cs \<in> buckets_of data. \<forall>c \<in> set cs. Q (rowid c + 1)"
  shows "\<forall>e \<in> set res'. Q (snd (snd e))"
proof -
  from assms(1) obtain m where v: "vec_at data node = Some m" and
    l: "sp_loop data m tBegin tEnd (insert node visited) distance ingoing [] = Some res'"
    by (auto simp: doShortestPaths_def split: option.splits)
  have "\<forall>cs \<in> buckets_of data \<union> snd ` set m. \<forall>c \<in> set cs. Q (rowid c + 1)"
    using assms(2) vec_at_buckets[OF v] by auto
  from sp_loop_rowids[OF l this] show ?thesis by simp
qed

lemma shortestPaths_root_rowids:
  assumes "shortestPaths_root ingoing outgoing root inBegin inEnd outBegin outEnd i acc = Some acc'"
    and "\<forall>cs \<in> buckets_of ingoing \<union> buckets_of outgoing. \<forall>c \<in> set cs. valid_id ts (rowid c + 1)"
    and "\<forall>x \<in> set (inRowid acc) \<union> set (outRowid acc). valid_id ts x"
  shows "\<forall>x \<in> set (inRowid acc') \<union> set (outRowid acc'). valid_id ts x"
proof -
  from assms(1) obtain r ib ie ob oe rin rout where
    i: "doShortestPaths ingoing (r - 1) ib ie {} 1 True [] = Some rin" and
    o: "doShortestPaths outgoing (r - 1) ob oe {} 1 False [] = Some rout" and
    a: "inRowid acc' = inRowid acc @ map (\<lambda>e. snd (snd e)) rin"
       "outRowid acc' = outRowid acc @ map (\<lambda>e. snd (snd e)) rout"
    by (auto simp: shortestPaths_root_def split: option.splits)
  have "\<forall>e \<in> set rin. valid_id ts (snd (snd e))"
    using assms(2) by (intro doShortestPaths_rowids[OF i]) blast
  moreover have "\<forall>e \<in> set rout. valid_id ts (snd (snd e))"
    using assms(2) by (intro doShortestPaths_rowids[OF o]) blast
  ultimately show ?thesis using assms(3) a by auto
qed

lemma shortestPaths_loop_rowids:
  "shortestPaths_loop ingoing outgoing root inBegin inEnd outBegin outEnd is acc = Some r \<Longrightarrow>
   \<forall>cs \<in> buckets_of ingoing \<union> buckets_of outgoing. \<forall>c \<in> set cs. valid_id ts (rowid c + 1) \<Longrightarrow>
   \<forall>x \<in> set (inRowid acc) \<union> set (outRowid acc). valid_id ts x \<Longrightarrow>
   \<forall>x \<in> set (inRowid r) \<union> set (outRowid r). valid_id ts x"
proof (induction "is" arbitrary: acc)
  case Nil
  then show ?case by simp
next
  case (Cons i "is")
  from Cons.prems(1) obtain acc1 where
    a: "shortestPaths_root ingoing outgoing root inBegin inEnd outBegin outEnd i acc = Some acc1"
    and l: "shortestPaths_loop ingoing outgoing root inBegin inEnd outBegin outEnd is acc1 = Some r"
    by (auto split: option.splits)
  from Cons.IH[OF l Cons.prems(2) shortestPaths_root_rowids[OF a Cons.prems(2,3)]]
  show ?case .
qed

text \<open>
  C10.  In the result of \<^verbatim>\<open>traceContacts\<close> the row-id vector and the distance vector of
  each root and direction have the same length, and every row id is the one-based number
  of an input row, between 1 and the number of events; the row ids that
  \<^verbatim>\<open>shortestPaths\<close> returns lie in the same range.
\<close>

theorem record_ids_in_range:
  "(traceContacts malloc_ok src dst ts root inBegin inEnd outBegin outEnd numberOfIdentifiers
       maxDistance = Inr vecs \<longrightarrow>
      length vecs = 4 * length root \<and>
      (\<forall>i < length root.
         length (vecs ! (4 * i)) = length (vecs ! (4 * i + 1)) \<and>
         length (vecs ! (4 * i + 2)) = length (vecs ! (4 * i + 3)) \<and>
         (\<forall>x \<in> set (vecs ! (4 * i)) \<union> set (vecs ! (4 * i + 2)).
            1 \<le> x \<and> x \<le> int (length ts)))) \<and>
   (shortestPaths malloc_ok src dst ts root inBegin inEnd outBegin outEnd numberOfIdentifiers
       = Inr sp \<longrightarrow>
      (\<forall>x \<in> set (inRowid sp) \<union> set (outRowid sp). 1 \<le> x \<and> x \<le> int (length ts)))"
proof (intro conjI impI)
  assume tc: "traceContacts malloc_ok src dst ts root inBegin inEnd outBegin outEnd
                numberOfIdentifiers maxDistance = Inr vecs"
  then obtain rc ingoing outgoing where
    b: "buildContactsLookup malloc_ok (empty_lookup numberOfIdentifiers)
          (empty_lookup numberOfIdentifiers) src dst ts = Some (rc, ingoing, outgoing)" and
    l: "traceContacts_loop ingoing outgoing root inBegin inEnd outBegin outEnd maxDistance
          [0..<length root] [] = Some vecs"
    by (auto simp: traceContacts_def split: if_splits option.splits)
  from traceContacts_loop_blocks[OF l build_rowids[OF b]] obtain blocks where
    bl: "vecs = concat blocks" "length blocks = length root" "\<forall>b \<in> set blocks. good_block ts b"
    by auto
  then have l4: "\<forall>b \<in> set blocks. length b = 4" by (simp add: good_block_def)
  show "length vecs = 4 * length root" using bl length_concat4[OF l4] by simp
  show "\<forall>i < length root.
         length (vecs ! (4 * i)) = length (vecs ! (4 * i + 1)) \<and>
         length (vecs ! (4 * i + 2)) = length (vecs ! (4 * i + 3)) \<and>
         (\<forall>x \<in> set (vecs ! (4 * i)) \<union> set (vecs ! (4 * i + 2)).
            1 \<le> x \<and> x \<le> int (length ts))"
  proof (intro allI impI)
    fix i assume i: "i < length root"
    then have g: "good_block ts (blocks ! i)" using bl by simp
    have n: "vecs ! (4 * i) = blocks ! i ! 0" "vecs ! (4 * i + 1) = blocks ! i ! 1"
      "vecs ! (4 * i + 2) = blocks ! i ! 2" "vecs ! (4 * i + 3) = blocks ! i ! 3"
      using concat_nth4[OF l4, of i 0] concat_nth4[OF l4, of i 1] concat_nth4[OF l4, of i 2]
        concat_nth4[OF l4, of i 3] i bl by simp_all
    from g show "length (vecs ! (4 * i)) = length (vecs ! (4 * i + 1)) \<and>
         length (vecs ! (4 * i + 2)) = length (vecs ! (4 * i + 3)) \<and>
         (\<forall>x \<in> set (vecs ! (4 * i)) \<union> set (vecs ! (4 * i + 2)).
            1 \<le> x \<and> x \<le> int (length ts))"
      unfolding n by (simp add: good_block_def valid_id_def)
  qed
next
  assume "shortestPaths malloc_ok src dst ts root inBegin inEnd outBegin outEnd numberOfIdentifiers
            = Inr sp"
  then obtain rc ingoing outgoing where
    b: "buildContactsLookup malloc_ok (empty_lookup numberOfIdentifiers)
          (empty_lookup numberOfIdentifiers) src dst ts = Some (rc, ingoing, outgoing)" and
    l: "shortestPaths_loop ingoing outgoing root inBegin inEnd outBegin outEnd [0..<length root]
          \<lparr>inDistance = [], inRowid = [], inIndex = [],
           outDistance = [], outRowid = [], outIndex = []\<rparr> = Some sp"
    by (auto simp: shortestPaths_def split: if_splits option.splits)
  from shortestPaths_loop_rowids[OF l build_rowids[OF b]]
  show "\<forall>x \<in> set (inRowid sp) \<union> set (outRowid sp). 1 \<le> x \<and> x \<le> int (length ts)"
    by (simp add: valid_id_def)
qed

theorem record_ids_in_range_witness:
  "traceContacts True [1, 2, 1] [2, 3, 3] [10, 20, 5] [1] [0] [100] [0] [100] 3 0
     = Inr [[], [], [1, 2, 3], [1, 2, 1]] \<and>
   shortestPaths True [1, 2, 1] [2, 3, 3] [10, 20, 5] [1] [0] [100] [0] [100] 3
     = Inr \<lparr>inDistance = [], inRowid = [], inIndex = [],
            outDistance = [1, 1], outRowid = [1, 3], outIndex = [1, 1]\<rparr> \<and>
   (1::int) \<le> 2 \<and> (2::int) \<le> int (length [10, 20, 5 :: int]) \<and>
   (1::int) \<le> 3 \<and> (3::int) \<le> int (length [10, 20, 5 :: int])"
proof -
  have t: "traceContacts True [1, 2, 1] [2, 3, 3] [10, 20, 5] [1] [0] [100] [0] [100] 3 0
     = Inr [[], [], [1, 2, 3], [1, 2, 1]]"
    by code_simp
  have s: "shortestPaths True [1, 2, 1] [2, 3, 3] [10, 20, 5] [1] [0] [100] [0] [100] 3
     = Inr \<lparr>inDistance = [], inRowid = [], inIndex = [],
            outDistance = [1, 1], outRowid = [1, 3], outIndex = [1, 1]\<rparr>"
    by code_simp
  from record_ids_in_range[of True "[1, 2, 1]" "[2, 3, 3]" "[10, 20, 5]" "[1]" "[0]" "[100]" "[0]"
      "[100]" 3 0 "[[], [], [1, 2, 3], [1, 2, 1]]"
      "\<lparr>inDistance = [], inRowid = [], inIndex = [],
        outDistance = [1, 1], outRowid = [1, 3], outIndex = [1, 1]\<rparr>"] t s
  have "(\<forall>x \<in> set ([[], [], [1, 2, 3], [1, 2, 1]] ! (4 * 0)) \<union>
              set ([[], [], [1, 2, 3], [1, 2, 1]] ! (4 * 0 + 2)).
            1 \<le> x \<and> x \<le> int (length [10, 20, 5 :: int]))"
    and "(\<forall>x \<in> set ([] :: int list) \<union> set ([1, 3] :: int list). 1 \<le> x \<and> x \<le> int (length [10, 20, 5 :: int]))"
    by auto
  then have "(1::int) \<le> 2 \<and> (2::int) \<le> int (length [10, 20, 5 :: int])"
    and "(1::int) \<le> 3 \<and> (3::int) \<le> int (length [10, 20, 5 :: int])"
    by simp_all
  with t s show ?thesis by blast
qed

section \<open>The map of shortest paths\<close>

lemma map_of_map_set: "map_of (map_set k v m) = (map_of m)(k \<mapsto> v)"
  by (induction m) (auto simp: fun_eq_iff)

lemma map_of_record_shortest:
  "map_of (record_shortest result k distance rid) =
     (case map_of result k of
        None \<Rightarrow> (map_of result)(k \<mapsto> (distance, rid + 1))
      | Some dr \<Rightarrow> if distance < fst dr then (map_of result)(k \<mapsto> (distance, rid + 1))
                   else map_of result)"
  by (simp add: record_shortest_def map_of_map_set split: option.splits)

lemma record_shortest_keeps:
  assumes "map_of result j = Some (d0, r0)"
  shows "\<exists>d1 r1. map_of (record_shortest result k distance rid) j = Some (d1, r1) \<and>
                 d1 \<le> d0 \<and> (d1 = d0 \<longrightarrow> r1 = r0)"
  using assms by (auto simp: map_of_record_shortest split: option.splits)

lemma sp_loop_keeps:
  "sp_loop data m tBegin tEnd visited distance ingoing result = Some result' \<Longrightarrow>
   map_of result j = Some (d0, r0) \<Longrightarrow>
   \<exists>d1 r1. map_of result' j = Some (d1, r1) \<and> d1 \<le> d0 \<and> (d1 = d0 \<longrightarrow> r1 = r0)"
proof (induction data m tBegin tEnd visited distance ingoing result arbitrary: result' d0 r0
       rule: sp_loop.induct)
  case (1 data tBegin tEnd visited distance ingoing result)
  then show ?case by simp
next
  case (2 data k cs rest tBegin tEnd visited distance ingoing result)
  define p where "p = lower_bound cs 0 (length cs) tBegin"
  define r1 where "r1 = record_shortest result k distance (rowid (cs ! p))"
  define w where "w = next_window cs p tBegin tEnd ingoing"
  show ?case
  proof (cases "k \<notin> visited \<and> in_window cs p tEnd")
    case False
    then have "sp_loop data rest tBegin tEnd visited distance ingoing result = Some result'"
      using "2.prems"(1) by (auto simp: Let_def p_def split: if_splits)
    with False "2.IH"(3)[OF _ p_def _ this "2.prems"(2)] "2.IH"(4)[OF _ this "2.prems"(2)]
    show ?thesis by blast
  next
    case True
    then have kv: "k \<notin> visited" and iw: "in_window cs p tEnd" by simp_all
    from "2.prems"(1) kv iw obtain m r2 where
      v: "vec_at data k = Some m" and
      i: "sp_loop data m (fst w) (snd w) (insert k visited) (distance + 1) ingoing r1 = Some r2" and
      r: "sp_loop data rest tBegin tEnd visited distance ingoing r2 = Some result'"
      by (auto simp: Let_def p_def[symmetric] w_def[symmetric] r1_def[symmetric]
               split: option.splits)
    from record_shortest_keeps[OF "2.prems"(2)] obtain da ra where
      a: "map_of r1 j = Some (da, ra)" "da \<le> d0" "da = d0 \<longrightarrow> ra = r0"
      unfolding r1_def by blast
    from "2.IH"(1)[OF kv p_def iw r1_def w_def v i a(1)] obtain db rb where
      b: "map_of r2 j = Some (db, rb)" "db \<le> da" "db = da \<longrightarrow> rb = ra"
      by blast
    from "2.IH"(2)[OF kv p_def iw r1_def w_def v i r b(1)] obtain dc rc where
      c: "map_of result' j = Some (dc, rc)" "dc \<le> db" "dc = db \<longrightarrow> rc = rb"
      by blast
    from a b c show ?thesis by auto
  qed
qed

text \<open>
  C1.  When \<^verbatim>\<open>doShortestPaths\<close> finds a qualifying bucket of a neighbour \<open>k\<close> that is not
  on the path, with \<open>e\<close> the first event of the (sorted) bucket at or after \<open>tBegin\<close>, the
  map it carries into the descent and on to the next bucket is \<open>result1\<close>: a neighbour
  with no entry gets \<open>(distance, rowid e + 1)\<close>; a neighbour with an entry \<open>(d0, r0)\<close> gets
  that pair only if \<open>distance < d0\<close>, and otherwise, so also when \<open>distance = d0\<close>, the
  map is the same list as before.  Over a whole run of the loop, recursion included, an
  entry is never removed, its distance never grows, and while the distance stays the
  same so does the record id.
\<close>

theorem shortest_path_record:
  assumes "sorted (map timestamp cs)"
    and "in_window cs (lower_bound cs 0 (length cs) tBegin) tEnd"
    and "k \<notin> visited"
    and "e = hd (filter (\<lambda>c. tBegin \<le> timestamp c) cs)"
    and "w = next_window cs (lower_bound cs 0 (length cs) tBegin) tBegin tEnd ingoing"
    and "result1 = record_shortest result k distance (rowid e)"
  shows "sp_loop data ((k, cs) # rest) tBegin tEnd visited distance ingoing result =
           (case doShortestPaths data k (fst w) (snd w) visited (distance + 1) ingoing result1 of
              None \<Rightarrow> None
            | Some result2 \<Rightarrow> sp_loop data rest tBegin tEnd visited distance ingoing result2) \<and>
         (map_of result k = None \<longrightarrow>
            map_of result1 = (map_of result)(k \<mapsto> (distance, rowid e + 1))) \<and>
         (\<forall>d0 r0. map_of result k = Some (d0, r0) \<longrightarrow>
            (distance < d0 \<longrightarrow> map_of result1 = (map_of result)(k \<mapsto> (distance, rowid e + 1))) \<and>
            (d0 \<le> distance \<longrightarrow> result1 = result)) \<and>
         (\<forall>m result' j d0 r0.
            sp_loop data m tBegin tEnd visited distance ingoing result = Some result' \<and>
            map_of result j = Some (d0, r0) \<longrightarrow>
            (\<exists>d1 r1. map_of result' j = Some (d1, r1) \<and> d1 \<le> d0 \<and> (d1 = d0 \<longrightarrow> r1 = r0)))"
proof -
  have e: "e = cs ! lower_bound cs 0 (length cs) tBegin"
    using first_qualifying[OF assms(1,2)] assms(4) by simp
  have "sp_loop data ((k, cs) # rest) tBegin tEnd visited distance ingoing result =
           (case doShortestPaths data k (fst w) (snd w) visited (distance + 1) ingoing result1 of
              None \<Rightarrow> None
            | Some result2 \<Rightarrow> sp_loop data rest tBegin tEnd visited distance ingoing result2)"
    using sp_loop_descend[OF assms(3,2), where ?t0.0 = "fst w" and ?t1.0 = "snd w" and ingoing = ingoing]
      assms(5,6) e
    by simp
  moreover have "map_of result k = None \<longrightarrow>
            map_of result1 = (map_of result)(k \<mapsto> (distance, rowid e + 1))"
    by (simp add: assms(6) map_of_record_shortest)
  moreover have "\<forall>d0 r0. map_of result k = Some (d0, r0) \<longrightarrow>
            (distance < d0 \<longrightarrow> map_of result1 = (map_of result)(k \<mapsto> (distance, rowid e + 1))) \<and>
            (d0 \<le> distance \<longrightarrow> result1 = result)"
    by (auto simp: assms(6) record_shortest_def map_of_map_set)
  ultimately show ?thesis
    using sp_loop_keeps by blast
qed

theorem shortest_path_record_witness:
  "sorted (map timestamp [\<lparr>rowid = 2, ident = 2, timestamp = 5\<rparr>]) \<and>
   in_window [\<lparr>rowid = 2, ident = 2, timestamp = 5\<rparr>]
     (lower_bound [\<lparr>rowid = 2, ident = 2, timestamp = 5\<rparr>] 0
        (length [\<lparr>rowid = 2, ident = 2, timestamp = 5\<rparr>]) 0) 100 \<and>
   (2::int) \<notin> {0} \<and>
   map_of (record_shortest [] 2 1 2) = (map_of [])(2 \<mapsto> (1, 3)) \<and>
   map_of (record_shortest [(1, 1, 1), (2, 2, 2)] 2 1 2) = (map_of [(1, 1, 1), (2, 2, 2)])(2 \<mapsto> (1, 3)) \<and>
   record_shortest [(2, 1, 7)] 2 1 2 = [(2, 1, 7)] \<and>
   sp_loop [[(1, [\<lparr>rowid = 0, ident = 1, timestamp = 10\<rparr>]),
             (2, [\<lparr>rowid = 2, ident = 2, timestamp = 5\<rparr>])],
            [(2, [\<lparr>rowid = 1, ident = 2, timestamp = 20\<rparr>])], []]
     [(1, [\<lparr>rowid = 0, ident = 1, timestamp = 10\<rparr>]),
      (2, [\<lparr>rowid = 2, ident = 2, timestamp = 5\<rparr>])] 0 100 {0} 1 False [(2, 1, 7)]
     = Some [(1, 1, 1), (2, 1, 7)]"
proof -
  define cs where "cs = [\<lparr>rowid = 2, ident = 2, timestamp = (5::int)\<rparr>]"
  define data :: Lookup where "data = [[(1, [\<lparr>rowid = 0, ident = 1, timestamp = 10\<rparr>]), (2, cs)],
            [(2, [\<lparr>rowid = 1, ident = 2, timestamp = (20::int)\<rparr>])], []]"
  have lb: "lower_bound cs 0 (length cs) 0 = 0" unfolding cs_def by code_simp
  have h1: "sorted (map timestamp cs)" by (simp add: cs_def)
  have h2: "in_window cs (lower_bound cs 0 (length cs) 0) 100"
    unfolding lb by (simp add: in_window_def cs_def)
  have h3: "(2::int) \<notin> {0}" by simp
  have h4: "\<lparr>rowid = 2, ident = 2, timestamp = (5::int)\<rparr> = hd (filter (\<lambda>c. 0 \<le> timestamp c) cs)"
    by (simp add: cs_def)
  note inst = shortest_path_record[OF h1 h2 h3 h4 refl refl,
      where ingoing = False and distance = 1 and data = data and rest = "[]"]
  have a: "map_of (record_shortest [] 2 1 2) = (map_of [])(2 \<mapsto> (1, 3))"
    using inst[where result = "[]"] by simp
  have b: "map_of (record_shortest [(1, 1, 1), (2, 2, 2)] 2 1 2)
             = (map_of [(1, 1, 1), (2, 2, 2)])(2 \<mapsto> (1, 3))"
    using inst[where result = "[(1, 1, 1), (2, 2, 2)]"] by simp
  have c: "record_shortest [(2, 1, 7)] 2 1 2 = [(2, 1, 7)]"
    using inst[where result = "[(2, 1, 7)]"] by simp
  have d: "sp_loop data [(1, [\<lparr>rowid = 0, ident = 1, timestamp = 10\<rparr>]), (2, cs)]
             0 100 {0} 1 False [(2, 1, 7)] = Some [(1, 1, 1), (2, 1, 7)]"
    unfolding data_def cs_def by code_simp
  from h1 h2 h3 a b c d show ?thesis unfolding cs_def data_def by blast
qed

section \<open>The events that the trace records\<close>

lemma nth_range_eq: "q \<le> length cs \<Longrightarrow> map (\<lambda>i. cs ! i) [p..<q] = drop p (take q cs)"
  by (rule nth_equalityI) auto

lemma qualifying_range:
  assumes "sorted (map timestamp cs)"
    and "in_window cs (lower_bound cs 0 (length cs) tBegin) tEnd"
  shows "map (\<lambda>i. cs ! i)
           [lower_bound cs 0 (length cs) tBegin ..<
            upper_bound cs (lower_bound cs 0 (length cs) tBegin) (length cs) tEnd]
         = filter (\<lambda>c. tBegin \<le> timestamp c \<and> timestamp c \<le> tEnd) cs"
proof -
  let ?p = "lower_bound cs 0 (length cs) tBegin"
  let ?q = "upper_bound cs ?p (length cs) tEnd"
  let ?P = "\<lambda>c. tBegin \<le> timestamp c \<and> timestamp c \<le> tEnd"
  note ub = upper_bound_after[OF assms(2) lower_bound_le]
  have p: "?p < length cs" using assms(2) lower_bound_le[of cs tBegin] by (simp add: in_window_def)
  have lo: "\<forall>c \<in> set (take ?p cs). \<not> ?P c"
    using lower_bound_loop_sorted[OF assms(1), of 0 "length cs" _ tBegin]
    by (auto simp: in_set_conv_nth lower_bound_def) force
  have hi: "\<forall>c \<in> set (drop ?q cs). \<not> ?P c"
  proof
    fix c assume "c \<in> set (drop ?q cs)"
    then obtain i where i: "i < length cs - ?q" "c = cs ! (?q + i)"
      by (auto simp: in_set_conv_nth)
    have "?q + i < length cs" using i(1) by simp
    with upper_bound_loop_sorted[OF assms(1), of ?p "length cs - ?p" tEnd "?q + i"] i p
    show "\<not> ?P c" by (auto simp: upper_bound_def)
  qed
  have mid: "\<forall>c \<in> set (drop ?p (take ?q cs)). ?P c"
  proof
    fix c assume "c \<in> set (drop ?p (take ?q cs))"
    then obtain i where i: "i < ?q - ?p" "c = cs ! (?p + i)"
      using ub by (auto simp: in_set_conv_nth)
    have b: "?p + i < length cs" "?p + i \<le> ?q - 1" "?q - 1 < length cs" "?p \<le> ?p + i"
      using i(1) ub by auto
    have "timestamp (cs ! ?p) \<le> timestamp (cs ! (?p + i))"
      by (rule sorted_timestamp_nth[OF assms(1) b(4) b(1)])
    moreover have "timestamp (cs ! (?p + i)) \<le> timestamp (cs ! (?q - 1))"
      by (rule sorted_timestamp_nth[OF assms(1) b(2) b(3)])
    ultimately show "?P c"
      using i lower_bound_ge[of cs tBegin] p ub by simp
  qed
  have "take ?q cs = take ?p (take ?q cs) @ drop ?p (take ?q cs)"
    by (rule append_take_drop_id[symmetric])
  also have "take ?p (take ?q cs) = take ?p cs"
    using ub by (simp add: min_def)
  finally have "take ?q cs @ drop ?q cs = (take ?p cs @ drop ?p (take ?q cs)) @ drop ?q cs"
    by simp
  then have "cs = take ?p cs @ drop ?p (take ?q cs) @ drop ?q cs"
    by simp
  then have "filter ?P cs = filter ?P (take ?p cs) @ filter ?P (drop ?p (take ?q cs)) @ filter ?P (drop ?q cs)"
    by (metis filter_append)
  also have "\<dots> = drop ?p (take ?q cs)"
    using lo hi mid by (simp add: filter_empty_conv filter_id_conv)
  finally show ?thesis using nth_range_eq[of ?q cs ?p] ub by simp
qed

lemma tc_loop_distances:
  "tc_loop data m tBegin tEnd visited distance ingoing res maxDistance = Some res' \<Longrightarrow>
   0 < maxDistance \<Longrightarrow> distance \<le> maxDistance \<Longrightarrow>
   \<exists>new. snd res' = snd res @ new \<and> (\<forall>x \<in> set new. distance \<le> x \<and> x \<le> maxDistance)"
proof (induction data m tBegin tEnd visited distance ingoing res maxDistance arbitrary: res'
       rule: tc_loop.induct)
  case (1 data tBegin tEnd visited distance ingoing res maxDistance)
  then show ?case by simp
next
  case (2 data k cs rest tBegin tEnd visited distance ingoing res maxDistance)
  define p where "p = lower_bound cs 0 (length cs) tBegin"
  define q where "q = upper_bound cs p (length cs) tEnd"
  define r1 where "r1 = push_range cs [p..<q] distance res"
  define w where "w = next_window cs p tBegin tEnd ingoing"
  note mx = "2.prems"(2,3)
  show ?case
  proof (cases "k \<notin> visited \<and> in_window cs p tEnd")
    case False
    then have "tc_loop data rest tBegin tEnd visited distance ingoing res maxDistance = Some res'"
      using "2.prems"(1) by (auto simp: Let_def p_def split: if_splits)
    with False "2.IH"(4)[OF _ p_def _ this mx] "2.IH"(5)[OF _ this mx]
    show ?thesis by blast
  next
    case True
    then have kv: "k \<notin> visited" and iw: "in_window cs p tEnd" by simp_all
    have s1: "snd r1 = snd res @ replicate (length [p..<q]) distance"
      by (simp add: r1_def push_range_eq)
    show ?thesis
    proof (cases "maxDistance > 0 \<and> distance \<ge> maxDistance")
      case cap: True
      then have "tc_loop data rest tBegin tEnd visited distance ingoing r1 maxDistance = Some res'"
        using "2.prems"(1) kv iw
        by (auto simp: Let_def p_def[symmetric] q_def[symmetric] r1_def[symmetric])
      from "2.IH"(1)[OF kv p_def iw q_def r1_def cap this mx] obtain new where
        "snd res' = snd r1 @ new" "\<forall>x \<in> set new. distance \<le> x \<and> x \<le> maxDistance"
        by blast
      with s1 mx have "snd res' = snd res @ (replicate (length [p..<q]) distance @ new) \<and>
          (\<forall>x \<in> set (replicate (length [p..<q]) distance @ new). distance \<le> x \<and> x \<le> maxDistance)"
        by auto
      then show ?thesis by blast
    next
      case cap: False
      from "2.prems"(1) kv iw cap obtain m r2 where
        v: "vec_at data k = Some m" and
        i: "tc_loop data m (fst w) (snd w) (insert k visited) (distance + 1) ingoing r1 maxDistance
              = Some r2" and
        r: "tc_loop data rest tBegin tEnd visited distance ingoing r2 maxDistance = Some res'"
        by (auto simp: Let_def p_def[symmetric] q_def[symmetric] w_def[symmetric]
              r1_def[symmetric] split: option.splits)
      have d1: "distance + 1 \<le> maxDistance" using cap mx by simp
      from "2.IH"(2)[OF kv p_def iw q_def r1_def cap w_def v i mx(1) d1] obtain new1 where
        n1: "snd r2 = snd r1 @ new1" "\<forall>x \<in> set new1. distance + 1 \<le> x \<and> x \<le> maxDistance"
        by blast
      from "2.IH"(3)[OF kv p_def iw q_def r1_def cap w_def v i r mx] obtain new2 where
        n2: "snd res' = snd r2 @ new2" "\<forall>x \<in> set new2. distance \<le> x \<and> x \<le> maxDistance"
        by blast
      from s1 n1 n2 mx
      have "snd res' = snd res @ (replicate (length [p..<q]) distance @ new1 @ new2) \<and>
          (\<forall>x \<in> set (replicate (length [p..<q]) distance @ new1 @ new2).
             distance \<le> x \<and> x \<le> maxDistance)"
        by auto
      then show ?thesis by blast
    qed
  qed
qed

text \<open>
  C4.  At a qualifying bucket \<open>(k, cs)\<close>, sorted by timestamp, of a neighbour that is not on
  the path, \<^verbatim>\<open>doTraceContacts\<close> appends the record id of every event of the bucket whose
  timestamp lies in \<open>[tBegin, tEnd]\<close>, in bucket order, and as many copies of the current
  distance (\<open>res1\<close>).  If \<open>maxDistance\<close> is positive and the distance has reached it, the
  loop goes on to the next bucket with these records and does not descend; otherwise, so
  whenever \<open>maxDistance\<close> is 0, it descends into \<open>k\<close> with distance plus one.  With a
  positive \<open>maxDistance\<close> no recorded distance exceeds it.
\<close>

theorem trace_records_range:
  assumes "sorted (map timestamp cs)"
    and "in_window cs (lower_bound cs 0 (length cs) tBegin) tEnd"
    and "k \<notin> visited"
    and "evs = filter (\<lambda>c. tBegin \<le> timestamp c \<and> timestamp c \<le> tEnd) cs"
    and "res1 = (fst res @ map (\<lambda>c. rowid c + 1) evs, snd res @ replicate (length evs) distance)"
    and "w = next_window cs (lower_bound cs 0 (length cs) tBegin) tBegin tEnd ingoing"
  shows "(0 < maxDistance \<and> maxDistance \<le> distance \<longrightarrow>
            tc_loop data ((k, cs) # rest) tBegin tEnd visited distance ingoing res maxDistance =
            tc_loop data rest tBegin tEnd visited distance ingoing res1 maxDistance) \<and>
         (maxDistance = 0 \<or> distance < maxDistance \<longrightarrow>
            tc_loop data ((k, cs) # rest) tBegin tEnd visited distance ingoing res maxDistance =
            (case doTraceContacts data k (fst w) (snd w) visited (distance + 1) ingoing res1
                    maxDistance of
               None \<Rightarrow> None
             | Some res2 \<Rightarrow>
                 tc_loop data rest tBegin tEnd visited distance ingoing res2 maxDistance)) \<and>
         (\<forall>m res'. 0 < maxDistance \<and> distance \<le> maxDistance \<and>
            tc_loop data m tBegin tEnd visited distance ingoing res maxDistance = Some res' \<longrightarrow>
            (\<exists>new. snd res' = snd res @ new \<and>
                   (\<forall>x \<in> set new. distance \<le> x \<and> x \<le> maxDistance)))"
proof -
  let ?p = "lower_bound cs 0 (length cs) tBegin"
  let ?q = "upper_bound cs ?p (length cs) tEnd"
  have "map (\<lambda>i. rowid (cs ! i) + 1) [?p..<?q] = map (\<lambda>c. rowid c + 1) (map (\<lambda>i. cs ! i) [?p..<?q])"
    by simp
  also have "\<dots> = map (\<lambda>c. rowid c + 1) evs"
    using qualifying_range[OF assms(1,2)] assms(4) by simp
  finally have m: "map (\<lambda>i. rowid (cs ! i) + 1) [?p..<?q] = map (\<lambda>c. rowid c + 1) evs" .
  have "length [?p..<?q] = length evs"
    using arg_cong[OF m, of length] by simp
  with m have r1: "push_range cs [?p..<?q] distance res = res1"
    by (simp add: push_range_eq assms(5))
  have "0 < maxDistance \<and> maxDistance \<le> distance \<longrightarrow>
            tc_loop data ((k, cs) # rest) tBegin tEnd visited distance ingoing res maxDistance =
            tc_loop data rest tBegin tEnd visited distance ingoing res1 maxDistance"
    using assms(2,3) r1 by (simp add: Let_def)
  moreover have "maxDistance = 0 \<or> distance < maxDistance \<longrightarrow>
            tc_loop data ((k, cs) # rest) tBegin tEnd visited distance ingoing res maxDistance =
            (case doTraceContacts data k (fst w) (snd w) visited (distance + 1) ingoing res1
                    maxDistance of
               None \<Rightarrow> None
             | Some res2 \<Rightarrow>
                 tc_loop data rest tBegin tEnd visited distance ingoing res2 maxDistance)"
  proof
    assume "maxDistance = 0 \<or> distance < maxDistance"
    then have c: "\<not> (maxDistance > 0 \<and> distance \<ge> maxDistance)" by auto
    have nw: "next_window cs ?p tBegin tEnd ingoing = (fst w, snd w)" by (simp add: assms(6))
    from tc_loop_descend[OF assms(3,2) nw c] r1
    show "tc_loop data ((k, cs) # rest) tBegin tEnd visited distance ingoing res maxDistance =
            (case doTraceContacts data k (fst w) (snd w) visited (distance + 1) ingoing res1
                    maxDistance of
               None \<Rightarrow> None
             | Some res2 \<Rightarrow>
                 tc_loop data rest tBegin tEnd visited distance ingoing res2 maxDistance)"
      by simp
  qed
  ultimately show ?thesis
    using tc_loop_distances by blast
qed

theorem trace_records_range_witness:
  "sorted (map timestamp [\<lparr>rowid = 2, ident = 1, timestamp = 5\<rparr>,
                          \<lparr>rowid = 3, ident = 1, timestamp = 7\<rparr>,
                          \<lparr>rowid = 0, ident = 1, timestamp = 10\<rparr>,
                          \<lparr>rowid = 1, ident = 1, timestamp = 30\<rparr>]) \<and>
   tc_loop [[], []]
     [(1, [\<lparr>rowid = 2, ident = 1, timestamp = 5\<rparr>, \<lparr>rowid = 3, ident = 1, timestamp = 7\<rparr>,
           \<lparr>rowid = 0, ident = 1, timestamp = 10\<rparr>, \<lparr>rowid = 1, ident = 1, timestamp = 30\<rparr>])]
     6 20 {0} 1 True ([], []) 1 = Some ([4, 1], [1, 1]) \<and>
   tc_loop [[], []]
     [(1, [\<lparr>rowid = 2, ident = 1, timestamp = 5\<rparr>, \<lparr>rowid = 3, ident = 1, timestamp = 7\<rparr>,
           \<lparr>rowid = 0, ident = 1, timestamp = 10\<rparr>, \<lparr>rowid = 1, ident = 1, timestamp = 30\<rparr>])]
     6 20 {0} 1 True ([], []) 0 =
   doTraceContacts [[], []] 1 6 10 {0} 2 True ([4, 1], [1, 1]) 0"
proof -
  define cs where "cs = [\<lparr>rowid = 2, ident = 1, timestamp = 5\<rparr>,
                          \<lparr>rowid = 3, ident = 1, timestamp = 7\<rparr>,
                          \<lparr>rowid = 0, ident = 1, timestamp = 10\<rparr>,
                          \<lparr>rowid = 1, ident = 1, timestamp = (30::int)\<rparr>]"
  have lb: "lower_bound cs 0 (length cs) 6 = 1" unfolding cs_def by code_simp
  have h1: "sorted (map timestamp cs)" by (simp add: cs_def)
  have h2: "in_window cs (lower_bound cs 0 (length cs) 6) 20"
    unfolding lb by (simp add: in_window_def cs_def)
  have h3: "(1::int) \<notin> {0}" by simp
  have h4: "[\<lparr>rowid = 3, ident = 1, timestamp = 7\<rparr>, \<lparr>rowid = 0, ident = 1, timestamp = 10\<rparr>]
              = filter (\<lambda>c. 6 \<le> timestamp c \<and> timestamp c \<le> 20) cs"
    by (simp add: cs_def)
  have h5: "([4, 1], [1, 1]) =
      (fst ([], []) @ map (\<lambda>c. rowid c + 1)
          [\<lparr>rowid = 3, ident = 1, timestamp = 7\<rparr>, \<lparr>rowid = 0, ident = 1, timestamp = (10::int)\<rparr>],
       snd ([], []) @ replicate (length
          [\<lparr>rowid = 3, ident = 1, timestamp = 7\<rparr>, \<lparr>rowid = 0, ident = 1, timestamp = (10::int)\<rparr>]) (1::int))"
    by (simp add: numeral_2_eq_2)
  have "next_window cs 1 6 20 True = (6, 10)" unfolding cs_def by code_simp
  then have h6: "(6, 10) = next_window cs (lower_bound cs 0 (length cs) 6) 6 20 True"
    unfolding lb by simp
  note inst = trace_records_range[OF h1 h2 h3 h4 h5 h6, where data = "[[], []]" and rest = "[]"]
  have a: "tc_loop [[], []] [(1, cs)] 6 20 {0} 1 True ([], []) 1 = Some ([4, 1], [1, 1])"
    using inst[where maxDistance = 1] by simp
  have b: "tc_loop [[], []] [(1, cs)] 6 20 {0} 1 True ([], []) 0 =
           doTraceContacts [[], []] 1 6 10 {0} 2 True ([4, 1], [1, 1]) 0"
    using inst[where maxDistance = 0] by (simp split: option.splits)
  from h1 a b show ?thesis unfolding cs_def by blast
qed

section \<open>No events\<close>

lemma build_no_events:
  "buildContactsLookup malloc_ok ingoing outgoing [] [] [] =
     Some (if malloc_ok then 0 else - 1, ingoing, outgoing)"
  by (simp add: buildContactsLookup_def R_orderVector_def)

lemma vec_at_empty_lookup:
  "1 \<le> r \<Longrightarrow> r \<le> n \<Longrightarrow> vec_at (empty_lookup n) (r - 1) = Some []"
  by (simp add: vec_at_def empty_lookup_def)

lemma shortestPaths_loop_no_events:
  "\<forall>i \<in> set is. i < length root \<and> i < length inBegin \<and> i < length inEnd \<and>
      i < length outBegin \<and> i < length outEnd \<and> 1 \<le> root ! i \<and> root ! i \<le> n \<Longrightarrow>
   shortestPaths_loop (empty_lookup n) (empty_lookup n) root inBegin inEnd outBegin outEnd is acc
     = Some acc"
  by (induction "is" arbitrary: acc)
     (simp_all add: shortestPaths_root_def int_at_def doShortestPaths_def vec_at_empty_lookup)

lemma traceContacts_loop_no_events:
  "\<forall>i \<in> set is. i < length root \<and> i < length inBegin \<and> i < length inEnd \<and>
      i < length outBegin \<and> i < length outEnd \<and> 1 \<le> root ! i \<and> root ! i \<le> n \<Longrightarrow>
   traceContacts_loop (empty_lookup n) (empty_lookup n) root inBegin inEnd outBegin outEnd
      maxDistance is acc
     = Some (acc @ replicate (4 * length is) [])"
proof (induction "is" arbitrary: acc)
  case Nil
  then show ?case by simp
next
  case (Cons i "is")
  have "replicate (4 * length (i # is)) ([]::int list) = [[], [], [], []] @ replicate (4 * length is) []"
    by (simp add: numeral_eq_Suc)
  with Cons show ?case
    by (simp add: traceContacts_root_def int_at_def doTraceContacts_def vec_at_empty_lookup)
qed

lemma contactChain_no_events:
  assumes "1 \<le> r" "r \<le> n"
  shows "\<exists>vs. contactChain (empty_lookup n) (r - 1) tb te (VisitedNodes_new n) ingoing = Some vs \<and>
              N vs = 1"
proof -
  have "vec_at (replicate (nat n) (False, 0::int)) (r - 1) = Some (False, 0)"
    using assms by (simp add: vec_at_def)
  then show ?thesis
    using assms
    by (simp add: contactChain_def Update_def VisitedNodes_new_def vec_at_empty_lookup N_def)
qed

lemma networkSummary_loop_no_events:
  "\<forall>i \<in> set is. i < length root \<and> i < length inBegin \<and> i < length inEnd \<and>
      i < length outBegin \<and> i < length outEnd \<and> 1 \<le> root ! i \<and> root ! i \<le> n \<Longrightarrow>
   networkSummary_loop (empty_lookup n) (empty_lookup n) root inBegin inEnd outBegin outEnd n is acc
     = Some \<lparr>inDegree = inDegree acc @ replicate (length is) 0,
             outDegree = outDegree acc @ replicate (length is) 0,
             ingoingContactChain = ingoingContactChain acc @ replicate (length is) 0,
             outgoingContactChain = outgoingContactChain acc @ replicate (length is) 0\<rparr>"
proof (induction "is" arbitrary: acc)
  case Nil
  then show ?case by simp
next
  case (Cons i "is")
  then have r: "1 \<le> root ! i" "root ! i \<le> n" by simp_all
  from contactChain_no_events[OF r] obtain vi where
    vi: "contactChain (empty_lookup n) (root ! i - 1) (inBegin ! i) (inEnd ! i)
           (VisitedNodes_new n) True = Some vi" "N vi = 1"
    by blast
  from contactChain_no_events[OF r] obtain vo where
    vo: "contactChain (empty_lookup n) (root ! i - 1) (outBegin ! i) (outEnd ! i)
           (VisitedNodes_new n) False = Some vo" "N vo = 1"
    by blast
  have step: "networkSummary_root (empty_lookup n) (empty_lookup n) root inBegin inEnd outBegin
                outEnd n i acc
     = Some \<lparr>inDegree = inDegree acc @ [0], outDegree = outDegree acc @ [0],
             ingoingContactChain = ingoingContactChain acc @ [0],
             outgoingContactChain = outgoingContactChain acc @ [0]\<rparr>"
    using Cons.prems vi vo r
    by (simp add: networkSummary_root_def int_at_def degree_def vec_at_empty_lookup)
  show ?case
    using Cons.prems by (simp add: step Cons.IH replicate_append_same)
qed

text \<open>
  C3, amended.  With no events, a node count \<open>n \<ge> 0\<close>, roots between 1 and \<open>n\<close> and window
  arrays as long as the root array: \<^verbatim>\<open>shortestPaths\<close> returns six empty arrays and
  \<^verbatim>\<open>traceContacts\<close> four empty arrays per root; \<^verbatim>\<open>networkSummary\<close>, when its buffer
  allocation succeeds, returns one entry per root in each of its four arrays, every
  entry 0.  None of the three raises an error.
\<close>

theorem no_events_results:
  assumes "0 \<le> n"
    and "\<forall>r \<in> set root. 1 \<le> r \<and> r \<le> n"
    and "length inBegin = length root" and "length inEnd = length root"
    and "length outBegin = length root" and "length outEnd = length root"
  shows "shortestPaths malloc_ok [] [] [] root inBegin inEnd outBegin outEnd n =
           Inr \<lparr>inDistance = [], inRowid = [], inIndex = [],
                outDistance = [], outRowid = [], outIndex = []\<rparr> \<and>
         traceContacts malloc_ok [] [] [] root inBegin inEnd outBegin outEnd n maxDistance =
           Inr (replicate (4 * length root) []) \<and>
         networkSummary True [] [] [] root inBegin inEnd outBegin outEnd n =
           Inr \<lparr>inDegree = replicate (length root) 0,
                outDegree = replicate (length root) 0,
                ingoingContactChain = replicate (length root) 0,
                outgoingContactChain = replicate (length root) 0\<rparr>"
proof -
  have q: "\<forall>i \<in> set [0..<length root]. i < length root \<and> i < length inBegin \<and>
      i < length inEnd \<and> i < length outBegin \<and> i < length outEnd \<and>
      1 \<le> root ! i \<and> root ! i \<le> n"
    using assms by simp
  show ?thesis
    using assms(1)
    by (simp add: shortestPaths_def traceContacts_def networkSummary_def build_no_events
          shortestPaths_loop_no_events[OF q] traceContacts_loop_no_events[OF q]
          networkSummary_loop_no_events[OF q])
qed

theorem no_events_results_witness:
  "(0::int) \<le> 3 \<and>
   shortestPaths True [] [] [] [1, 3] [0, 0] [100, 100] [0, 0] [100, 100] 3 =
     Inr \<lparr>inDistance = [], inRowid = [], inIndex = [],
          outDistance = [], outRowid = [], outIndex = []\<rparr> \<and>
   traceContacts True [] [] [] [1, 3] [0, 0] [100, 100] [0, 0] [100, 100] 3 0 =
     Inr [[], [], [], [], [], [], [], []] \<and>
   networkSummary True [] [] [] [1, 3] [0, 0] [100, 100] [0, 0] [100, 100] 3 =
     Inr \<lparr>inDegree = [0, 0], outDegree = [0, 0],
          ingoingContactChain = [0, 0], outgoingContactChain = [0, 0]\<rparr>"
proof -
  have h1: "(0::int) \<le> 3" by simp
  have h2: "\<forall>r \<in> set [1, 3 :: int]. 1 \<le> r \<and> r \<le> 3" by simp
  have h3: "length [0, 0 :: int] = length [1, 3 :: int]" by simp
  have h4: "length [100, 100 :: int] = length [1, 3 :: int]" by simp
  have r: "replicate (4 * length [1, 3 :: int]) ([] :: int list) = [[], [], [], [], [], [], [], []]"
    "replicate (length [1, 3 :: int]) (0::int) = [0, 0]"
    by (simp_all add: numeral_eq_Suc)
  from no_events_results[OF h1 h2 h3 h4 h3 h4, of True 0] h1 show ?thesis
    unfolding r by blast
qed

text \<open>
  C3 as stated fails for the network summary: one root and no events give four arrays
  of length one, not empty arrays.
\<close>

theorem no_events_counterexample:
  "networkSummary True [] [] [] [1] [0] [100] [0] [100] 3 =
     Inr \<lparr>inDegree = [0], outDegree = [0], ingoingContactChain = [0], outgoingContactChain = [0]\<rparr> \<and>
   networkSummary True [] [] [] [1] [0] [100] [0] [100] 3 \<noteq>
     Inr \<lparr>inDegree = [], outDegree = [], ingoingContactChain = [], outgoingContactChain = []\<rparr>"
proof -
  have "networkSummary True [] [] [] [1] [0] [100] [0] [100] 3 =
     Inr \<lparr>inDegree = [0], outDegree = [0], ingoingContactChain = [0], outgoingContactChain = [0]\<rparr>"
    by code_simp
  then show ?thesis by simp
qed

section \<open>The visitation state of the contact chain\<close>

lemma length_filter_update:
  assumes "i < length xs"
  shows "length (filter P (xs[i := y])) + (if P (xs ! i) then 1 else 0) =
         length (filter P xs) + (if P y then 1 else 0)"
proof -
  have "length (filter P (take i xs @ xs ! i # drop (Suc i) xs)) =
      length (filter P (take i xs)) + (if P (xs ! i) then 1 else 0) + length (filter P (drop (Suc i) xs))"
    by simp
  then have "length (filter P xs) =
      length (filter P (take i xs)) + (if P (xs ! i) then 1 else 0) + length (filter P (drop (Suc i) xs))"
    using id_take_nth_drop[OF assms, symmetric] by simp
  moreover have "length (filter P (xs[i := y])) =
      length (filter P (take i xs)) + (if P y then 1 else 0) + length (filter P (drop (Suc i) xs))"
    using assms by (simp add: upd_conv_take_nth_drop)
  ultimately show ?thesis by simp
qed

lemma count_update_seen:
  "i < length xs \<Longrightarrow> fst (xs ! i) \<Longrightarrow>
   length (filter fst (xs[i := (True, b)])) = length (filter fst xs)"
  using length_filter_update[of i xs fst "(True, b)"] by simp

lemma count_update_new:
  "i < length xs \<Longrightarrow> \<not> fst (xs ! i) \<Longrightarrow>
   length (filter fst (xs[i := (True, b)])) = Suc (length (filter fst xs))"
  using length_filter_update[of i xs fst "(True, b)"] by simp

lemma Update_count:
  assumes "Update vs k tb te ingoing = Some vs1" and "N vs = int (visited_count vs)"
  shows "N vs1 = int (visited_count vs1)"
proof -
  obtain e where e: "vec_at (visitedNodes vs) k = Some e"
    using assms(1) by (auto simp: Update_def split: option.splits)
  then have k: "nat k < length (visitedNodes vs)" "visitedNodes vs ! nat k = e"
    by (auto simp: vec_at_def split: if_splits)
  show ?thesis
  proof (cases "fst e")
    case True
    then have "visited_count vs1 = visited_count vs"
      using assms(1) e k count_update_seen[OF k(1)]
      by (auto simp: Update_def visited_count_def split: if_splits)
    moreover have "N vs1 = N vs"
      using assms(1) e True by (auto simp: Update_def N_def split: if_splits)
    ultimately show ?thesis using assms(2) by simp
  next
    case False
    then have "visited_count vs1 = visited_count vs + 1"
      using assms(1) e k count_update_new[OF k(1)]
      by (auto simp: Update_def visited_count_def split: if_splits)
    moreover have "N vs1 = N vs + 1"
      using assms(1) e False by (auto simp: Update_def N_def)
    ultimately show ?thesis using assms(2) by simp
  qed
qed

lemma cc_loop_vs_le:
  "cc_loop data m tBegin tEnd vs ingoing = Some vs' \<Longrightarrow> vs_le ingoing vs vs'"
  using cc_loop_vs_le_dom cc_loop_all_dom by blast

lemma is_visited_mono:
  assumes "vs_le ingoing vs vs'" and "is_visited vs k"
  shows "is_visited vs' k"
proof -
  from assms(2) have k: "0 \<le> k" "nat k < length (visitedNodes vs)" "fst (visitedNodes vs ! nat k)"
    by (auto simp: is_visited_def vec_at_def split: option.splits if_splits)
  with assms(1) have "length (visitedNodes vs') = length (visitedNodes vs)"
    "fst (visitedNodes vs' ! nat k)"
    by (auto simp: vs_le_def)
  with k show ?thesis by (simp add: is_visited_def vec_at_def)
qed

lemma Update_visited: "Update vs k tb te ingoing = Some vs1 \<Longrightarrow> is_visited vs1 k"
  by (auto simp: Update_def is_visited_def vec_at_def split: option.splits if_splits)

lemma Visit_False_visited: "Visit vs k tb te ingoing = Some False \<Longrightarrow> is_visited vs k"
  by (auto simp: Visit_def is_visited_def split: option.splits if_splits)

text \<open>
  One bucket of the loop, by cases: pruned or not qualifying, the state goes on unchanged;
  otherwise the callee's \<open>Update\<close>, its loop, then the rest.
\<close>

lemma cc_loop_Cons_cases:
  assumes "cc_loop data ((k, cs) # rest) tBegin tEnd vs ingoing = Some vs'"
  obtains (skip) "cc_loop data rest tBegin tEnd vs ingoing = Some vs'"
      "Visit vs k tBegin tEnd ingoing = Some False \<or>
       (Visit vs k tBegin tEnd ingoing = Some True \<and>
        \<not> in_window cs (lower_bound cs 0 (length cs) tBegin) tEnd)"
    | (descend) vs1 m vs2 where
      "Visit vs k tBegin tEnd ingoing = Some True"
      "in_window cs (lower_bound cs 0 (length cs) tBegin) tEnd"
      "Update vs k (fst (next_window cs (lower_bound cs 0 (length cs) tBegin) tBegin tEnd ingoing))
         (snd (next_window cs (lower_bound cs 0 (length cs) tBegin) tBegin tEnd ingoing)) ingoing
         = Some vs1"
      "vec_at data k = Some m"
      "cc_loop data m (fst (next_window cs (lower_bound cs 0 (length cs) tBegin) tBegin tEnd ingoing))
         (snd (next_window cs (lower_bound cs 0 (length cs) tBegin) tBegin tEnd ingoing)) vs1 ingoing
         = Some vs2"
      "cc_loop data rest tBegin tEnd vs2 ingoing = Some vs'"
  using assms by (auto simp: Let_def split: option.splits if_splits)

lemma cc_loop_count:
  "cc_loop data m tBegin tEnd vs ingoing = Some vs' \<Longrightarrow> N vs = int (visited_count vs) \<Longrightarrow>
   N vs' = int (visited_count vs')"
proof (induction data m tBegin tEnd vs ingoing arbitrary: vs' rule: cc_loop.induct)
  case (1 data tBegin tEnd vs ingoing)
  then show ?case by simp
next
  case (2 data k cs rest tBegin tEnd vs ingoing)
  from "2.prems"(1) show ?case
  proof (cases rule: cc_loop_Cons_cases)
    case skip
    then show ?thesis
      using "2.IH"(3)[OF _ _ refl _ skip(1) "2.prems"(2)] "2.IH"(4)[OF _ _ skip(1) "2.prems"(2)]
      by auto
  next
    case (descend vs1 m vs2)
    have "N vs1 = int (visited_count vs1)"
      using Update_count[OF descend(3) "2.prems"(2)] .
    then have "N vs2 = int (visited_count vs2)"
      by (rule "2.IH"(1)[OF descend(1) TrueI refl descend(2) refl descend(3,4,5)])
    then show ?thesis
      by (rule "2.IH"(2)[OF descend(1) TrueI refl descend(2) refl descend(3,4,5,6)])
  qed
qed

lemma cc_loop_marks:
  "cc_loop data m tBegin tEnd vs ingoing = Some vs' \<Longrightarrow> (k, cs) \<in> set m \<Longrightarrow>
   in_window cs (lower_bound cs 0 (length cs) tBegin) tEnd \<Longrightarrow> is_visited vs' k"
proof (induction data m tBegin tEnd vs ingoing arbitrary: vs' rule: cc_loop.induct)
  case (1 data tBegin tEnd vs ingoing)
  then show ?case by simp
next
  case (2 data k' cs' rest tBegin tEnd vs ingoing)
  from "2.prems"(1) show ?case
  proof (cases rule: cc_loop_Cons_cases)
    case skip
    show ?thesis
    proof (cases "(k, cs) \<in> set rest")
      case True
      then show ?thesis
        using "2.IH"(3)[OF _ _ refl _ skip(1) True "2.prems"(3)]
          "2.IH"(4)[OF _ _ skip(1) True "2.prems"(3)] skip(2)
        by auto
    next
      case False
      then have "k' = k" "cs' = cs" using "2.prems"(2) by auto
      with skip(2) "2.prems"(3) have "is_visited vs k"
        by (auto dest: Visit_False_visited)
      then show ?thesis
        using is_visited_mono[OF cc_loop_vs_le[OF skip(1)]] by simp
    qed
  next
    case (descend vs1 m vs2)
    show ?thesis
    proof (cases "(k, cs) \<in> set rest")
      case True
      show ?thesis
        by (rule "2.IH"(2)[OF descend(1) TrueI refl descend(2) refl descend(3,4,5,6) True "2.prems"(3)])
    next
      case False
      then have "k' = k" using "2.prems"(2) by auto
      then have "is_visited vs1 k" using Update_visited[OF descend(3)] by simp
      then have "is_visited vs2 k"
        using is_visited_mono[OF cc_loop_vs_le[OF descend(5)]] by simp
      then show ?thesis
        using is_visited_mono[OF cc_loop_vs_le[OF descend(6)]] by simp
    qed
  qed
qed

section \<open>Degree, direct neighbours and chain size\<close>

lemma map_set_keys: "fst ` set (map_set k v m) = insert k (fst ` set m)"
  by (induction k v m rule: map_set.induct) auto

lemma map_set_strict:
  "sorted_wrt (<) (map fst m) \<Longrightarrow> sorted_wrt (<) (map fst (map_set k v m))"
proof (induction m)
  case Nil
  then show ?case by simp
next
  case (Cons a m)
  have "\<forall>x \<in> fst ` set (map_set k v m). x = k \<or> x \<in> fst ` set m"
    using map_set_keys[of k v m] by auto
  with Cons show ?case
    by (cases a) (auto simp del: map_set_keys; force)
qed

lemma build_step_strict:
  assumes "build_step src dst ts j io = Some io'"
    and "\<forall>m \<in> set (fst io) \<union> set (snd io). sorted_wrt (<) (map fst m)"
  shows "\<forall>m \<in> set (fst io') \<union> set (snd io'). sorted_wrt (<) (map fst m)"
proof -
  let ?zs = "src ! j - 1" and ?zd = "dst ! j - 1"
  from assms(1) obtain mi mo where
    mi: "vec_at (fst io) ?zd = Some mi" and mo: "vec_at (snd io) ?zs = Some mo" and
    io': "io' = ((fst io)[nat ?zd := push_back_at ?zs
                     \<lparr>rowid = int j, ident = ?zs, timestamp = ts ! j\<rparr> mi],
                 (snd io)[nat ?zs := push_back_at ?zd
                     \<lparr>rowid = int j, ident = ?zd, timestamp = ts ! j\<rparr> mo])"
    by (auto simp: build_step_def Let_def split: if_splits option.splits)
  have "sorted_wrt (<) (map fst mi)" "sorted_wrt (<) (map fst mo)"
    using assms(2) vec_at_mem[OF mi] vec_at_mem[OF mo] by auto
  then have "sorted_wrt (<) (map fst (push_back_at ?zs
                     \<lparr>rowid = int j, ident = ?zs, timestamp = ts ! j\<rparr> mi))"
    "sorted_wrt (<) (map fst (push_back_at ?zd
                     \<lparr>rowid = int j, ident = ?zd, timestamp = ts ! j\<rparr> mo))"
    by (simp_all add: push_back_at_def map_set_strict)
  then show ?thesis
    unfolding io' using assms(2) set_update_subset_insert[of "fst io" "nat ?zd"]
      set_update_subset_insert[of "snd io" "nat ?zs"]
    by (simp add: subset_iff) blast
qed

lemma build_loop_strict:
  "build_loop src dst ts js io = Some io' \<Longrightarrow>
   \<forall>m \<in> set (fst io) \<union> set (snd io). sorted_wrt (<) (map fst m) \<Longrightarrow>
   \<forall>m \<in> set (fst io') \<union> set (snd io'). sorted_wrt (<) (map fst m)"
proof (induction js arbitrary: io)
  case Nil
  then show ?case by simp
next
  case (Cons j js)
  from Cons.prems(1) obtain io1 where
    st: "build_step src dst ts j io = Some io1" and lp: "build_loop src dst ts js io1 = Some io'"
    by (auto split: option.splits)
  from Cons.IH[OF lp build_step_strict[OF st Cons.prems(2)]] show ?case .
qed

lemma build_buckets_sorted:
  assumes "buildContactsLookup malloc_ok (empty_lookup n) (empty_lookup n) src dst ts
             = Some (rc, ingoing, outgoing)"
  shows "\<forall>cs \<in> buckets_of ingoing \<union> buckets_of outgoing. sorted (map timestamp cs)"
proof (cases malloc_ok)
  case False
  with assms show ?thesis by (auto simp: buildContactsLookup_def)
next
  case True
  with assms have "build_loop src dst ts (R_orderVector ts) (empty_lookup n, empty_lookup n)
                     = Some (ingoing, outgoing)"
    by (auto simp: buildContactsLookup_def split: option.splits)
  from build_loop_sorted[OF this] show ?thesis
    by (simp add: R_orderVector_def)
qed

lemma build_index_ok:
  assumes "buildContactsLookup malloc_ok (empty_lookup n) (empty_lookup n) src dst ts
             = Some (rc, ingoing, outgoing)"
  shows "index_ok ingoing \<and> index_ok outgoing"
proof -
  have e: "\<forall>m \<in> set (fst (empty_lookup n, empty_lookup n)) \<union> set (snd (empty_lookup n, empty_lookup n)).
             sorted_wrt (<) (map fst m)"
    by (simp add: empty_lookup_def)
  have "\<forall>m \<in> set ingoing \<union> set outgoing. sorted_wrt (<) (map fst m)"
  proof (cases malloc_ok)
    case False
    with assms e show ?thesis by (auto simp: buildContactsLookup_def)
  next
    case True
    with assms have "build_loop src dst ts (R_orderVector ts) (empty_lookup n, empty_lookup n)
                       = Some (ingoing, outgoing)"
      by (auto simp: buildContactsLookup_def split: option.splits)
    from build_loop_strict[OF this e] show ?thesis by simp
  qed
  moreover have "\<forall>m \<in> set ingoing \<union> set outgoing. \<forall>kc \<in> set m. sorted (map timestamp (snd kc))"
    using build_buckets_sorted[OF assms] by (fastforce simp: buckets_of_def)
  ultimately show ?thesis unfolding index_ok_def by blast
qed

lemma in_window_iff:
  assumes "sorted (map timestamp cs)"
  shows "in_window cs (lower_bound cs 0 (length cs) tBegin) tEnd \<longleftrightarrow>
         (\<exists>c \<in> set cs. tBegin \<le> timestamp c \<and> timestamp c \<le> tEnd)"
proof
  assume iw: "in_window cs (lower_bound cs 0 (length cs) tBegin) tEnd"
  then have "cs ! lower_bound cs 0 (length cs) tBegin \<in> set cs" by (rule in_window_nth_mem)
  moreover have "tBegin \<le> timestamp (cs ! lower_bound cs 0 (length cs) tBegin)"
    using iw lower_bound_ge[of cs tBegin] by (simp add: in_window_def)
  ultimately show "\<exists>c \<in> set cs. tBegin \<le> timestamp c \<and> timestamp c \<le> tEnd"
    using iw by (auto simp: in_window_def)
next
  let ?p = "lower_bound cs 0 (length cs) tBegin"
  assume "\<exists>c \<in> set cs. tBegin \<le> timestamp c \<and> timestamp c \<le> tEnd"
  then obtain i where i: "i < length cs" "tBegin \<le> timestamp (cs ! i)" "timestamp (cs ! i) \<le> tEnd"
    by (auto simp: in_set_conv_nth)
  have "\<not> i < ?p"
    using lower_bound_loop_sorted[OF assms, of 0 "length cs" i tBegin] i(2)
    by (auto simp: lower_bound_def)
  then have pi: "?p \<le> i" by simp
  then have "timestamp (cs ! ?p) \<le> timestamp (cs ! i)"
    using i(1) by (rule sorted_timestamp_nth[OF assms])
  with pi i show "in_window cs ?p tEnd" by (simp add: in_window_def)
qed

lemma degree_loop_eq:
  "degree_loop m node tBegin tEnd acc =
     acc + int (length (filter (\<lambda>kc. fst kc \<noteq> node \<and>
        in_window (snd kc) (lower_bound (snd kc) 0 (length (snd kc)) tBegin) tEnd) m))"
  by (induction m node tBegin tEnd acc rule: degree_loop.induct) (auto simp: Let_def)

lemma degree_hop1:
  assumes "index_ok data" and "degree data node tBegin tEnd = Some d"
  shows "d = int (card (hop1 data node tBegin tEnd))"
proof -
  from assms(2) obtain m where m: "vec_at data node = Some m" and
    d: "d = degree_loop m node tBegin tEnd 0"
    by (auto simp: degree_def split: option.splits)
  have ok: "sorted_wrt (<) (map fst m)" "\<forall>kc \<in> set m. sorted (map timestamp (snd kc))"
    using assms(1) vec_at_mem[OF m] by (auto simp: index_ok_def)
  let ?Q = "\<lambda>kc. fst kc \<noteq> node \<and>
        in_window (snd kc) (lower_bound (snd kc) 0 (length (snd kc)) tBegin) tEnd"
  let ?R = "\<lambda>kc. fst kc \<noteq> node \<and>
        (\<exists>c \<in> set (snd kc). tBegin \<le> timestamp c \<and> timestamp c \<le> tEnd)"
  have "filter ?Q m = filter ?R m"
    using ok(2) in_window_iff by (intro filter_cong) auto
  moreover have "distinct (map fst (filter ?R m))"
    using ok(1) by (intro distinct_map_filter) (simp add: strict_sorted_iff)
  then have "card (set (map fst (filter ?R m))) = length (filter ?R m)"
    using distinct_card[of "map fst (filter ?R m)"] by simp
  moreover have "hop1 data node tBegin tEnd = set (map fst (filter ?R m))"
    using m by (auto simp: hop1_def)
  ultimately show ?thesis using d by (simp add: degree_loop_eq)
qed

lemma visited_card:
  assumes "finite S" and "\<forall>k \<in> S. is_visited vs k"
  shows "card S \<le> visited_count vs"
proof -
  let ?V = "{i. i < length (visitedNodes vs) \<and> fst (visitedNodes vs ! i)}"
  have nn: "\<forall>k \<in> S. 0 \<le> k \<and> nat k \<in> ?V"
  proof
    fix k assume "k \<in> S"
    then have "is_visited vs k" using assms(2) by simp
    then show "0 \<le> k \<and> nat k \<in> ?V"
      by (auto simp: is_visited_def vec_at_def split: option.splits if_splits)
  qed
  then have "\<forall>k \<in> S. 0 \<le> k" by blast
  then have "inj_on nat S" by (metis inj_onI nat_eq_iff)
  then have "card (nat ` S) = card S" by (rule card_image)
  moreover have "nat ` S \<subseteq> ?V" using nn by auto
  then have "card (nat ` S) \<le> card ?V" by (intro card_mono) auto
  ultimately show ?thesis
    by (simp add: visited_count_def length_filter_conv_card)
qed

lemma contactChain_count:
  assumes "contactChain data node tBegin tEnd (VisitedNodes_new n) ingoing = Some vs"
  shows "N vs = int (visited_count vs)"
proof -
  from assms obtain vs1 m where
    u: "Update (VisitedNodes_new n) node tBegin tEnd ingoing = Some vs1" and
    l: "cc_loop data m tBegin tEnd vs1 ingoing = Some vs"
    by (auto simp: contactChain_def split: option.splits)
  have "N (VisitedNodes_new n) = int (visited_count (VisitedNodes_new n))"
    by (simp add: N_def visited_count_def VisitedNodes_new_def)
  from cc_loop_count[OF l Update_count[OF u this]] show ?thesis .
qed

lemma chain_covers_hop1:
  assumes "index_ok data"
    and "contactChain data node tBegin tEnd (VisitedNodes_new n) ingoing = Some vs"
  shows "int (card (hop1 data node tBegin tEnd)) \<le> N vs - 1"
proof -
  from assms(2) obtain vs1 m where
    u: "Update (VisitedNodes_new n) node tBegin tEnd ingoing = Some vs1" and
    m: "vec_at data node = Some m" and
    l: "cc_loop data m tBegin tEnd vs1 ingoing = Some vs"
    by (auto simp: contactChain_def split: option.splits)
  have ok: "\<forall>kc \<in> set m. sorted (map timestamp (snd kc))"
    using assms(1) vec_at_mem[OF m] by (auto simp: index_ok_def)
  let ?H = "hop1 data node tBegin tEnd"
  have fin: "finite ?H" using m by (simp add: hop1_def)
  have root: "is_visited vs node"
    using is_visited_mono[OF cc_loop_vs_le[OF l] Update_visited[OF u]] .
  have "\<forall>k \<in> ?H. is_visited vs k"
  proof
    fix k assume "k \<in> ?H"
    then obtain cs where kc: "(k, cs) \<in> set m"
      "\<exists>c \<in> set cs. tBegin \<le> timestamp c \<and> timestamp c \<le> tEnd"
      using m by (fastforce simp: hop1_def)
    then have "in_window cs (lower_bound cs 0 (length cs) tBegin) tEnd"
      using ok in_window_iff[of cs tBegin tEnd] by auto
    from cc_loop_marks[OF l kc(1) this] show "is_visited vs k" .
  qed
  with root have "\<forall>k \<in> insert node ?H. is_visited vs k" by simp
  from visited_card[OF _ this] fin have "card (insert node ?H) \<le> visited_count vs" by simp
  moreover have "node \<notin> ?H" using m by (auto simp: hop1_def)
  ultimately have "card ?H + 1 \<le> visited_count vs" using fin by simp
  then show ?thesis using contactChain_count[OF assms(2)] by simp
qed

section \<open>The rows of the network summary\<close>

lemma networkSummary_root_row:
  assumes "networkSummary_root ingoing outgoing root inBegin inEnd outBegin outEnd n i acc = Some acc'"
  shows "\<exists>vin vout din dout.
           i < length root \<and> i < length inBegin \<and> i < length inEnd \<and>
           i < length outBegin \<and> i < length outEnd \<and>
           contactChain ingoing (root ! i - 1) (inBegin ! i) (inEnd ! i) (VisitedNodes_new n) True
             = Some vin \<and>
           contactChain outgoing (root ! i - 1) (outBegin ! i) (outEnd ! i) (VisitedNodes_new n) False
             = Some vout \<and>
           degree ingoing (root ! i - 1) (inBegin ! i) (inEnd ! i) = Some din \<and>
           degree outgoing (root ! i - 1) (outBegin ! i) (outEnd ! i) = Some dout \<and>
           acc' = \<lparr>inDegree = inDegree acc @ [din], outDegree = outDegree acc @ [dout],
                   ingoingContactChain = ingoingContactChain acc @ [N vin - 1],
                   outgoingContactChain = outgoingContactChain acc @ [N vout - 1]\<rparr>"
  using assms
  by (auto simp: networkSummary_root_def int_at_def split: option.splits if_splits)

lemma rows_ok_snoc:
  assumes "rows_ok P acc k" and "P k a b c d"
  shows "rows_ok P \<lparr>inDegree = inDegree acc @ [a], outDegree = outDegree acc @ [b],
                    ingoingContactChain = ingoingContactChain acc @ [c],
                    outgoingContactChain = outgoingContactChain acc @ [d]\<rparr> (Suc k)"
  using assms by (auto simp: rows_ok_def nth_append less_Suc_eq)

lemma networkSummary_loop_rows:
  assumes step: "\<And>i acc acc'.
      networkSummary_root ingoing outgoing root inBegin inEnd outBegin outEnd n i acc = Some acc' \<Longrightarrow>
      \<exists>a b c d. acc' = \<lparr>inDegree = inDegree acc @ [a], outDegree = outDegree acc @ [b],
                         ingoingContactChain = ingoingContactChain acc @ [c],
                         outgoingContactChain = outgoingContactChain acc @ [d]\<rparr> \<and> P i a b c d"
  shows "networkSummary_loop ingoing outgoing root inBegin inEnd outBegin outEnd n [k..<K] acc = Some r \<Longrightarrow>
         k \<le> K \<Longrightarrow> rows_ok P acc k \<Longrightarrow> rows_ok P r K"
proof (induction "K - k" arbitrary: k acc)
  case 0
  then show ?case by simp
next
  case (Suc d)
  then have kK: "k < K" by simp
  then have up: "[k..<K] = k # [Suc k..<K]" by (rule upt_conv_Cons)
  from Suc.prems(1) obtain acc1 where
    a: "networkSummary_root ingoing outgoing root inBegin inEnd outBegin outEnd n k acc = Some acc1"
    and l: "networkSummary_loop ingoing outgoing root inBegin inEnd outBegin outEnd n [Suc k..<K] acc1
              = Some r"
    unfolding up by (auto split: option.splits)
  from step[OF a] Suc.prems(3) have "rows_ok P acc1 (Suc k)"
    by (auto intro: rows_ok_snoc)
  moreover have "d = K - Suc k" using Suc.hyps(2) by simp
  ultimately show ?case using Suc.hyps(1)[OF _ l] kK by simp
qed

text \<open>
  C6.  For every root of a network summary and each direction, the reported degree is at
  most (in fact equals) the number of distinct nodes other than the root that have an
  event with the root in the window, and that number is at most the reported chain size.
\<close>

theorem degree_le_chain:
  assumes "networkSummary malloc_ok src dst ts root inBegin inEnd outBegin outEnd n = Inr r"
    and "buildContactsLookup malloc_ok (empty_lookup n) (empty_lookup n) src dst ts
           = Some (rc, ingoing, outgoing)"
    and "i < length root"
  shows "inDegree r ! i \<le> int (card (hop1 ingoing (root ! i - 1) (inBegin ! i) (inEnd ! i))) \<and>
         int (card (hop1 ingoing (root ! i - 1) (inBegin ! i) (inEnd ! i)))
           \<le> ingoingContactChain r ! i \<and>
         outDegree r ! i \<le> int (card (hop1 outgoing (root ! i - 1) (outBegin ! i) (outEnd ! i))) \<and>
         int (card (hop1 outgoing (root ! i - 1) (outBegin ! i) (outEnd ! i)))
           \<le> outgoingContactChain r ! i"
proof -
  let ?P = "\<lambda>i a b c d.
     a \<le> int (card (hop1 ingoing (root ! i - 1) (inBegin ! i) (inEnd ! i))) \<and>
     int (card (hop1 ingoing (root ! i - 1) (inBegin ! i) (inEnd ! i))) \<le> c \<and>
     b \<le> int (card (hop1 outgoing (root ! i - 1) (outBegin ! i) (outEnd ! i))) \<and>
     int (card (hop1 outgoing (root ! i - 1) (outBegin ! i) (outEnd ! i))) \<le> d"
  note ok = build_index_ok[OF assms(2)]
  from assms(1,2) have l: "networkSummary_loop ingoing outgoing root inBegin inEnd outBegin outEnd
      n [0..<length root]
      \<lparr>inDegree = [], outDegree = [], ingoingContactChain = [], outgoingContactChain = []\<rparr>
      = Some r"
    by (auto simp: networkSummary_def split: if_splits option.splits)
  have step: "\<exists>a b c d. acc' = \<lparr>inDegree = inDegree acc @ [a], outDegree = outDegree acc @ [b],
                         ingoingContactChain = ingoingContactChain acc @ [c],
                         outgoingContactChain = outgoingContactChain acc @ [d]\<rparr> \<and> ?P j a b c d"
    if "networkSummary_root ingoing outgoing root inBegin inEnd outBegin outEnd n j acc = Some acc'"
    for j acc acc'
  proof -
    from networkSummary_root_row[OF that] obtain vin vout din dout where
      ci: "contactChain ingoing (root ! j - 1) (inBegin ! j) (inEnd ! j) (VisitedNodes_new n) True
             = Some vin" and
      co: "contactChain outgoing (root ! j - 1) (outBegin ! j) (outEnd ! j) (VisitedNodes_new n) False
             = Some vout" and
      di: "degree ingoing (root ! j - 1) (inBegin ! j) (inEnd ! j) = Some din" and
      do: "degree outgoing (root ! j - 1) (outBegin ! j) (outEnd ! j) = Some dout" and
      acc': "acc' = \<lparr>inDegree = inDegree acc @ [din], outDegree = outDegree acc @ [dout],
                   ingoingContactChain = ingoingContactChain acc @ [N vin - 1],
                   outgoingContactChain = outgoingContactChain acc @ [N vout - 1]\<rparr>"
      by blast
    have "?P j din dout (N vin - 1) (N vout - 1)"
      using degree_hop1[OF conjunct1[OF ok] di] degree_hop1[OF conjunct2[OF ok] do]
        chain_covers_hop1[OF conjunct1[OF ok] ci] chain_covers_hop1[OF conjunct2[OF ok] co]
      by simp
    with acc' show ?thesis by blast
  qed
  have "rows_ok ?P r (length root)"
    by (rule networkSummary_loop_rows[where P = ?P, OF step l]) (simp_all add: rows_ok_def)
  with assms(3) show ?thesis by (simp add: rows_ok_def)
qed

theorem degree_le_chain_witness:
  "networkSummary True [1, 2, 1, 1] [2, 3, 3, 1] [10, 20, 5, 7] [1, 2, 3] [0, 0, 0] [100, 100, 100]
      [0, 0, 0] [100, 100, 100] 3
     = Inr \<lparr>inDegree = [0, 1, 2], outDegree = [2, 1, 0],
            ingoingContactChain = [0, 1, 2], outgoingContactChain = [2, 1, 0]\<rparr> \<and>
   int (card (hop1
     [[(0, [\<lparr>rowid = 3, ident = 0, timestamp = 7\<rparr>]),
       (1, [\<lparr>rowid = 0, ident = 1, timestamp = 10\<rparr>]),
       (2, [\<lparr>rowid = 2, ident = 2, timestamp = 5\<rparr>])],
      [(2, [\<lparr>rowid = 1, ident = 2, timestamp = 20\<rparr>])], []] 0 0 100)) = 2"
proof -
  define ingoing :: Lookup where "ingoing =
      [[(0, [\<lparr>rowid = 3, ident = 0, timestamp = 7\<rparr>])],
       [(0, [\<lparr>rowid = 0, ident = 0, timestamp = 10\<rparr>])],
       [(0, [\<lparr>rowid = 2, ident = 0, timestamp = 5\<rparr>]),
        (1, [\<lparr>rowid = 1, ident = 1, timestamp = 20\<rparr>])]]"
  define outgoing :: Lookup where "outgoing =
     [[(0, [\<lparr>rowid = 3, ident = 0, timestamp = 7\<rparr>]),
       (1, [\<lparr>rowid = 0, ident = 1, timestamp = 10\<rparr>]),
       (2, [\<lparr>rowid = 2, ident = 2, timestamp = 5\<rparr>])],
      [(2, [\<lparr>rowid = 1, ident = 2, timestamp = 20\<rparr>])], []]"
  have b: "buildContactsLookup True (empty_lookup 3) (empty_lookup 3) [1, 2, 1, 1] [2, 3, 3, 1]
             [10, 20, 5, 7] = Some (0, ingoing, outgoing)"
    unfolding ingoing_def outgoing_def by code_simp
  have s: "networkSummary True [1, 2, 1, 1] [2, 3, 3, 1] [10, 20, 5, 7] [1, 2, 3] [0, 0, 0]
      [100, 100, 100] [0, 0, 0] [100, 100, 100] 3
     = Inr \<lparr>inDegree = [0, 1, 2], outDegree = [2, 1, 0],
            ingoingContactChain = [0, 1, 2], outgoingContactChain = [2, 1, 0]\<rparr>"
    by code_simp
  have i: "0 < length [1, 2, 3 :: int]" by simp
  from degree_le_chain[OF s b i]
  have "int (card (hop1 outgoing 0 0 100)) = 2" by simp
  with s show ?thesis unfolding outgoing_def by blast
qed

section \<open>Revisits in the contact chain\<close>

lemma Visit_visited:
  "is_visited vs k \<Longrightarrow>
   Visit vs k tBegin tEnd ingoing = Some (extends_bound vs k (tBegin, tEnd) ingoing)"
  by (auto simp: is_visited_def Visit_def extends_bound_def split: option.splits)

lemma extends_bound_narrow:
  "extends_bound vs k (t0, t1) ingoing \<Longrightarrow> tBegin \<le> t0 \<Longrightarrow> t1 \<le> tEnd \<Longrightarrow>
   extends_bound vs k (tBegin, tEnd) ingoing"
  by (auto simp: extends_bound_def split: option.splits if_splits)

lemma Update_no_extend:
  "is_visited vs k \<Longrightarrow> \<not> extends_bound vs k (t0, t1) ingoing \<Longrightarrow>
   Update vs k t0 t1 ingoing = Some vs"
  by (auto simp: is_visited_def Update_def extends_bound_def split: option.splits)

lemma networkSummary_root_chain:
  assumes "networkSummary_root ingoing outgoing root inBegin inEnd outBegin outEnd n i acc = Some acc'"
  shows "\<exists>vin vout.
           contactChain ingoing (root ! i - 1) (inBegin ! i) (inEnd ! i) (VisitedNodes_new n) True
             = Some vin \<and>
           contactChain outgoing (root ! i - 1) (outBegin ! i) (outEnd ! i) (VisitedNodes_new n) False
             = Some vout \<and>
           ingoingContactChain acc' = ingoingContactChain acc @ [int (visited_count vin) - 1] \<and>
           outgoingContactChain acc' = outgoingContactChain acc @ [int (visited_count vout) - 1]"
proof -
  from networkSummary_root_row[OF assms] obtain vin vout din dout where
    ci: "contactChain ingoing (root ! i - 1) (inBegin ! i) (inEnd ! i) (VisitedNodes_new n) True
           = Some vin" and
    co: "contactChain outgoing (root ! i - 1) (outBegin ! i) (outEnd ! i) (VisitedNodes_new n) False
           = Some vout" and
    acc': "acc' = \<lparr>inDegree = inDegree acc @ [din], outDegree = outDegree acc @ [dout],
                 ingoingContactChain = ingoingContactChain acc @ [N vin - 1],
                 outgoingContactChain = outgoingContactChain acc @ [N vout - 1]\<rparr>"
    by blast
  with contactChain_count[OF ci] contactChain_count[OF co] show ?thesis by auto
qed

text \<open>
  C2, amended.  Let node \<open>k\<close> be marked visited and let its bucket \<open>cs\<close> qualify in the
  window \<open>[tBegin, tEnd]\<close> of the current call; \<open>w\<close> is the narrowed window of the new call.
  The loop re-explores \<open>k\<close> exactly when the window of the current call would extend the
  recorded bound of \<open>k\<close> (ingoing: \<open>tEnd\<close> strictly later than the bound; outgoing:
  \<open>tBegin\<close> strictly earlier), in particular whenever the window of the new call would;
  when the window of the new call does not extend the bound, the \<open>Update\<close> of the new
  call leaves the state as it is.  Without re-exploration the bucket is pruned: the loop
  goes on with the same state.  For every root the chain size that the summary reports
  is the number of nodes marked visited at the end of the traversal, minus one.
\<close>

theorem chain_revisit:
  assumes "is_visited vs k"
    and "in_window cs (lower_bound cs 0 (length cs) tBegin) tEnd"
    and "w = next_window cs (lower_bound cs 0 (length cs) tBegin) tBegin tEnd ingoing"
  shows "(descends vs k cs tBegin tEnd ingoing \<longleftrightarrow> extends_bound vs k (tBegin, tEnd) ingoing) \<and>
         (extends_bound vs k w ingoing \<longrightarrow> descends vs k cs tBegin tEnd ingoing) \<and>
         (descends vs k cs tBegin tEnd ingoing \<longrightarrow>
            cc_loop data ((k, cs) # rest) tBegin tEnd vs ingoing =
              (case contactChain data k (fst w) (snd w) vs ingoing of
                 None \<Rightarrow> None
               | Some vs2 \<Rightarrow> cc_loop data rest tBegin tEnd vs2 ingoing)) \<and>
         (descends vs k cs tBegin tEnd ingoing \<and> \<not> extends_bound vs k w ingoing \<longrightarrow>
            Update vs k (fst w) (snd w) ingoing = Some vs) \<and>
         (\<not> descends vs k cs tBegin tEnd ingoing \<longrightarrow>
            cc_loop data ((k, cs) # rest) tBegin tEnd vs ingoing =
            cc_loop data rest tBegin tEnd vs ingoing) \<and>
         (\<forall>ing outg root inBegin inEnd outBegin outEnd n i acc acc'.
            networkSummary_root ing outg root inBegin inEnd outBegin outEnd n i acc = Some acc' \<longrightarrow>
            (\<exists>vin vout.
               contactChain ing (root ! i - 1) (inBegin ! i) (inEnd ! i) (VisitedNodes_new n) True
                 = Some vin \<and>
               contactChain outg (root ! i - 1) (outBegin ! i) (outEnd ! i) (VisitedNodes_new n) False
                 = Some vout \<and>
               ingoingContactChain acc' = ingoingContactChain acc @ [int (visited_count vin) - 1] \<and>
               outgoingContactChain acc' = outgoingContactChain acc @ [int (visited_count vout) - 1]))"
proof -
  note v = Visit_visited[OF assms(1), of tBegin tEnd ingoing]
  have w: "tBegin \<le> fst w" "snd w \<le> tEnd"
    using next_window_narrows[OF assms(2), of ingoing] assms(3) by simp_all
  have nw: "next_window cs (lower_bound cs 0 (length cs) tBegin) tBegin tEnd ingoing = (fst w, snd w)"
    by (simp add: assms(3))
  have a: "descends vs k cs tBegin tEnd ingoing \<longleftrightarrow> extends_bound vs k (tBegin, tEnd) ingoing"
    using v assms(2) by (simp add: descends_def)
  have b: "extends_bound vs k w ingoing \<longrightarrow> descends vs k cs tBegin tEnd ingoing"
    using extends_bound_narrow[of vs k "fst w" "snd w" ingoing tBegin tEnd] w a by simp
  have c: "descends vs k cs tBegin tEnd ingoing \<longrightarrow>
            cc_loop data ((k, cs) # rest) tBegin tEnd vs ingoing =
              (case contactChain data k (fst w) (snd w) vs ingoing of
                 None \<Rightarrow> None
               | Some vs2 \<Rightarrow> cc_loop data rest tBegin tEnd vs2 ingoing)"
    using cc_loop_descend[OF _ assms(2) nw] by (simp add: descends_def)
  have d: "descends vs k cs tBegin tEnd ingoing \<and> \<not> extends_bound vs k w ingoing \<longrightarrow>
            Update vs k (fst w) (snd w) ingoing = Some vs"
    using Update_no_extend[OF assms(1), of "fst w" "snd w" ingoing] by simp
  have e: "\<not> descends vs k cs tBegin tEnd ingoing \<longrightarrow>
            cc_loop data ((k, cs) # rest) tBegin tEnd vs ingoing =
            cc_loop data rest tBegin tEnd vs ingoing"
    using v assms(2) by (auto simp: descends_def)
  from a b c d e networkSummary_root_chain show ?thesis by blast
qed

text \<open>
  C2 as stated fails.  Rows (2,1,50), (3,2,5), (3,1,3), root 1, ingoing window [0,100]:
  after the bucket of node 1 (which marks node 2 with the bound 5), the root's bucket of
  node 2 holds one event at time 3.  The loop re-explores node 2, since the current
  \<open>tEnd = 100\<close> is later than 5, although the new call has the window \<open>[0, 3]\<close>, whose end
  is not later than the recorded bound.
\<close>

theorem chain_revisit_counterexample:
  "buildContactsLookup True (empty_lookup 3) (empty_lookup 3) [2, 3, 3] [1, 2, 1] [50, 5, 3] =
     Some (0,
       [[(1, [\<lparr>rowid = 0, ident = 1, timestamp = 50\<rparr>]),
         (2, [\<lparr>rowid = 2, ident = 2, timestamp = 3\<rparr>])],
        [(2, [\<lparr>rowid = 1, ident = 2, timestamp = 5\<rparr>])], []],
       [[], [(0, [\<lparr>rowid = 0, ident = 0, timestamp = 50\<rparr>])],
        [(0, [\<lparr>rowid = 2, ident = 0, timestamp = 3\<rparr>]),
         (1, [\<lparr>rowid = 1, ident = 1, timestamp = 5\<rparr>])]]) \<and>
   Update (VisitedNodes_new 3) 0 0 100 True =
     Some \<lparr>numberOfVisitedNodes = 1, visitedNodes = [(True, 100), (False, 0), (False, 0)]\<rparr> \<and>
   cc_loop [[(1, [\<lparr>rowid = 0, ident = 1, timestamp = 50\<rparr>]),
             (2, [\<lparr>rowid = 2, ident = 2, timestamp = 3\<rparr>])],
            [(2, [\<lparr>rowid = 1, ident = 2, timestamp = 5\<rparr>])], []]
      [(1, [\<lparr>rowid = 0, ident = 1, timestamp = 50\<rparr>])] 0 100
      \<lparr>numberOfVisitedNodes = 1, visitedNodes = [(True, 100), (False, 0), (False, 0)]\<rparr> True =
     Some \<lparr>numberOfVisitedNodes = 3, visitedNodes = [(True, 100), (True, 50), (True, 5)]\<rparr> \<and>
   is_visited \<lparr>numberOfVisitedNodes = 3, visitedNodes = [(True, 100), (True, 50), (True, 5)]\<rparr> 2 \<and>
   descends \<lparr>numberOfVisitedNodes = 3, visitedNodes = [(True, 100), (True, 50), (True, 5)]\<rparr> 2
      [\<lparr>rowid = 2, ident = 2, timestamp = 3\<rparr>] 0 100 True \<and>
   next_window [\<lparr>rowid = 2, ident = 2, timestamp = 3\<rparr>]
      (lower_bound [\<lparr>rowid = 2, ident = 2, timestamp = 3\<rparr>] 0
         (length [\<lparr>rowid = 2, ident = 2, timestamp = 3\<rparr>]) 0) 0 100 True = (0, 3) \<and>
   \<not> extends_bound \<lparr>numberOfVisitedNodes = 3, visitedNodes = [(True, 100), (True, 50), (True, 5)]\<rparr>
        2 (0, 3) True"
proof -
  have "buildContactsLookup True (empty_lookup 3) (empty_lookup 3) [2, 3, 3] [1, 2, 1] [50, 5, 3] =
     Some (0,
       [[(1, [\<lparr>rowid = 0, ident = 1, timestamp = 50\<rparr>]),
         (2, [\<lparr>rowid = 2, ident = 2, timestamp = 3\<rparr>])],
        [(2, [\<lparr>rowid = 1, ident = 2, timestamp = 5\<rparr>])], []],
       [[], [(0, [\<lparr>rowid = 0, ident = 0, timestamp = 50\<rparr>])],
        [(0, [\<lparr>rowid = 2, ident = 0, timestamp = 3\<rparr>]),
         (1, [\<lparr>rowid = 1, ident = 1, timestamp = 5\<rparr>])]])"
    by code_simp
  moreover have "Update (VisitedNodes_new 3) 0 0 100 True =
     Some \<lparr>numberOfVisitedNodes = 1, visitedNodes = [(True, 100), (False, 0), (False, 0)]\<rparr>"
    by code_simp
  moreover have "cc_loop [[(1, [\<lparr>rowid = 0, ident = 1, timestamp = 50\<rparr>]),
             (2, [\<lparr>rowid = 2, ident = 2, timestamp = 3\<rparr>])],
            [(2, [\<lparr>rowid = 1, ident = 2, timestamp = 5\<rparr>])], []]
      [(1, [\<lparr>rowid = 0, ident = 1, timestamp = 50\<rparr>])] 0 100
      \<lparr>numberOfVisitedNodes = 1, visitedNodes = [(True, 100), (False, 0), (False, 0)]\<rparr> True =
     Some \<lparr>numberOfVisitedNodes = 3, visitedNodes = [(True, 100), (True, 50), (True, 5)]\<rparr>"
    by code_simp
  moreover have "is_visited \<lparr>numberOfVisitedNodes = 3,
      visitedNodes = [(True, 100), (True, 50), (True, 5)]\<rparr> 2"
    by code_simp
  moreover have "descends \<lparr>numberOfVisitedNodes = 3,
      visitedNodes = [(True, 100), (True, 50), (True, 5)]\<rparr> 2
      [\<lparr>rowid = 2, ident = 2, timestamp = 3\<rparr>] 0 100 True"
    by code_simp
  moreover have "next_window [\<lparr>rowid = 2, ident = 2, timestamp = 3\<rparr>]
      (lower_bound [\<lparr>rowid = 2, ident = 2, timestamp = 3\<rparr>] 0
         (length [\<lparr>rowid = 2, ident = 2, timestamp = 3\<rparr>]) 0) 0 100 True = (0, 3)"
    by code_simp
  moreover have "\<not> extends_bound \<lparr>numberOfVisitedNodes = 3,
      visitedNodes = [(True, 100), (True, 50), (True, 5)]\<rparr> 2 (0, 3) True"
    by code_simp
  ultimately show ?thesis by blast
qed

theorem chain_revisit_witness:
  "is_visited \<lparr>numberOfVisitedNodes = 3, visitedNodes = [(True, 100), (True, 50), (True, 5)]\<rparr> 2 \<and>
   Update \<lparr>numberOfVisitedNodes = 3, visitedNodes = [(True, 100), (True, 50), (True, 5)]\<rparr>
      2 0 3 True
     = Some \<lparr>numberOfVisitedNodes = 3, visitedNodes = [(True, 100), (True, 50), (True, 5)]\<rparr> \<and>
   cc_loop [[], [], []] [(2, [\<lparr>rowid = 2, ident = 2, timestamp = 3\<rparr>])] 0 4
      \<lparr>numberOfVisitedNodes = 3, visitedNodes = [(True, 100), (True, 50), (True, 5)]\<rparr> True
     = Some \<lparr>numberOfVisitedNodes = 3, visitedNodes = [(True, 100), (True, 50), (True, 5)]\<rparr> \<and>
   descends \<lparr>numberOfVisitedNodes = 3, visitedNodes = [(True, 100), (True, 50), (True, 5)]\<rparr> 2
      [\<lparr>rowid = 2, ident = 2, timestamp = 7\<rparr>] 0 100 True \<and>
   ingoingContactChain \<lparr>inDegree = [2], outDegree = [0], ingoingContactChain = [2],
      outgoingContactChain = [0]\<rparr>
     = [] @ [int (visited_count
          \<lparr>numberOfVisitedNodes = 3, visitedNodes = [(True, 100), (True, 50), (True, 5)]\<rparr>) - 1]"
proof -
  define vs where "vs = \<lparr>numberOfVisitedNodes = 3,
      visitedNodes = [(True, 100), (True, 50), (True, 5::int)]\<rparr>"
  define c3 where "c3 = [\<lparr>rowid = 2, ident = 2, timestamp = (3::int)\<rparr>]"
  define c7 where "c7 = [\<lparr>rowid = 2, ident = 2, timestamp = (7::int)\<rparr>]"
  define ing :: Lookup where "ing = [[(1, [\<lparr>rowid = 0, ident = 1, timestamp = 50\<rparr>]),
         (2, [\<lparr>rowid = 2, ident = 2, timestamp = 3\<rparr>])],
        [(2, [\<lparr>rowid = 1, ident = 2, timestamp = 5\<rparr>])], []]"
  define outg :: Lookup where "outg = [[], [(0, [\<lparr>rowid = 0, ident = 0, timestamp = 50\<rparr>])],
        [(0, [\<lparr>rowid = 2, ident = 0, timestamp = 3\<rparr>]),
         (1, [\<lparr>rowid = 1, ident = 1, timestamp = 5\<rparr>])]]"
  have h1: "is_visited vs 2" unfolding vs_def by code_simp
  have lb3: "lower_bound c3 0 (length c3) 0 = 0" unfolding c3_def by code_simp
  have lb7: "lower_bound c7 0 (length c7) 0 = 0" unfolding c7_def by code_simp
  have w3: "in_window c3 (lower_bound c3 0 (length c3) 0) 100"
    "in_window c3 (lower_bound c3 0 (length c3) 0) 4"
    unfolding lb3 by (simp_all add: in_window_def c3_def)
  have w7: "in_window c7 (lower_bound c7 0 (length c7) 0) 100"
    unfolding lb7 by (simp add: in_window_def c7_def)
  have "next_window c3 0 0 100 True = (0, 3)" unfolding c3_def by code_simp
  then have n3: "(0, 3) = next_window c3 (lower_bound c3 0 (length c3) 0) 0 100 True"
    unfolding lb3 by simp
  have "next_window c7 0 0 100 True = (0, 7)" unfolding c7_def by code_simp
  then have n7: "(0, 7) = next_window c7 (lower_bound c7 0 (length c7) 0) 0 100 True"
    unfolding lb7 by simp
  have d3: "descends vs 2 c3 0 100 True" unfolding vs_def c3_def by code_simp
  have e3: "\<not> extends_bound vs 2 (0, 3) True" unfolding vs_def by code_simp
  have e7: "extends_bound vs 2 (0, 7) True" unfolding vs_def by code_simp
  have nd: "\<not> descends vs 2 c3 0 4 True" unfolding vs_def c3_def by code_simp
  have a: "Update vs 2 0 3 True = Some vs"
    using chain_revisit[OF h1 w3(1) n3] d3 e3 by simp
  have "cc_loop [[], [], []] [(2, c3)] 0 4 vs True = cc_loop [[], [], []] [] 0 4 vs True"
    using chain_revisit[OF h1 w3(2) refl, where data = "[[], [], []]" and rest = "[]"] nd by blast
  then have b: "cc_loop [[], [], []] [(2, c3)] 0 4 vs True = Some vs" by simp
  have c: "descends vs 2 c7 0 100 True"
    using chain_revisit[OF h1 w7 n7] e7 by blast
  have r: "networkSummary_root ing outg [1] [0] [100] [0] [100] 3 0
             \<lparr>inDegree = [], outDegree = [], ingoingContactChain = [], outgoingContactChain = []\<rparr>
           = Some \<lparr>inDegree = [2], outDegree = [0], ingoingContactChain = [2],
                   outgoingContactChain = [0]\<rparr>"
    unfolding ing_def outg_def by code_simp
  have ci: "contactChain ing ([1] ! 0 - 1) ([0] ! 0) ([100] ! 0) (VisitedNodes_new 3) True = Some vs"
    unfolding ing_def vs_def by code_simp
  from chain_revisit[OF h1 w3(1) n3] r obtain vin where
    "contactChain ing ([1] ! 0 - 1) ([0] ! 0) ([100] ! 0) (VisitedNodes_new 3) True = Some vin"
    "ingoingContactChain \<lparr>inDegree = [2], outDegree = [0], ingoingContactChain = [2],
        outgoingContactChain = [0]\<rparr>
       = ingoingContactChain \<lparr>inDegree = [], outDegree = [], ingoingContactChain = [],
           outgoingContactChain = []\<rparr> @ [int (visited_count vin) - 1]"
    by blast
  with ci have d: "ingoingContactChain \<lparr>inDegree = [2], outDegree = [0], ingoingContactChain = [2],
        outgoingContactChain = [0]\<rparr> = [] @ [int (visited_count vs) - 1]"
    by simp
  from h1 a b c d show ?thesis unfolding vs_def c3_def c7_def by blast
qed

section \<open>Self-loops\<close>

subsection \<open>The scans of a bucket read timestamps only\<close>

lemma timestamp_nth_eq:
  "map timestamp cs = map timestamp cs' \<Longrightarrow> i < length cs \<Longrightarrow>
   timestamp (cs ! i) = timestamp (cs' ! i)"
  by (metis length_map nth_map)

lemma lower_bound_loop_cong:
  "map timestamp cs = map timestamp cs' \<Longrightarrow> first + len \<le> length cs \<Longrightarrow>
   lower_bound_loop cs first len val = lower_bound_loop cs' first len val"
proof (induction cs first len val rule: lower_bound_loop.induct)
  case (1 cs first len val)
  show ?case
  proof (cases "0 < len")
    case False
    then show ?thesis by simp
  next
    case True
    define half where "half = len div 2"
    define middle where "middle = first + half"
    have hl: "half < len" using True by (simp add: half_def)
    have t: "timestamp (cs ! middle) = timestamp (cs' ! middle)"
      using timestamp_nth_eq[OF "1.prems"(1), of middle] hl "1.prems"(2) by (simp add: middle_def)
    have b1: "middle + 1 + (len - half - 1) \<le> length cs" and b2: "first + half \<le> length cs"
      using hl "1.prems"(2) by (simp_all add: middle_def)
    show ?thesis
    proof (cases "CompareContact_ct (cs ! middle) val")
      case c: True
      then have c': "CompareContact_ct (cs' ! middle) val" using t by (simp add: CompareContact_ct_def)
      show ?thesis
        using "1.IH"(1)[OF True half_def middle_def c "1.prems"(1) b1] True c c'
        by (subst lower_bound_loop.simps, subst (2) lower_bound_loop.simps)
           (simp add: half_def middle_def Let_def)
    next
      case c: False
      then have c': "\<not> CompareContact_ct (cs' ! middle) val"
        using t by (simp add: CompareContact_ct_def)
      show ?thesis
        using "1.IH"(2)[OF True half_def middle_def c "1.prems"(1) b2] True c c'
        by (subst lower_bound_loop.simps, subst (2) lower_bound_loop.simps)
           (simp add: half_def middle_def Let_def)
    qed
  qed
qed

lemma upper_bound_loop_cong:
  "map timestamp cs = map timestamp cs' \<Longrightarrow> first + len \<le> length cs \<Longrightarrow>
   upper_bound_loop cs first len val = upper_bound_loop cs' first len val"
proof (induction cs first len val rule: upper_bound_loop.induct)
  case (1 cs first len val)
  show ?case
  proof (cases "0 < len")
    case False
    then show ?thesis by simp
  next
    case True
    define half where "half = len div 2"
    define middle where "middle = first + half"
    have hl: "half < len" using True by (simp add: half_def)
    have t: "timestamp (cs ! middle) = timestamp (cs' ! middle)"
      using timestamp_nth_eq[OF "1.prems"(1), of middle] hl "1.prems"(2) by (simp add: middle_def)
    have b1: "middle + 1 + (len - half - 1) \<le> length cs" and b2: "first + half \<le> length cs"
      using hl "1.prems"(2) by (simp_all add: middle_def)
    show ?thesis
    proof (cases "CompareContact_tc val (cs ! middle)")
      case c: True
      then have c': "CompareContact_tc val (cs' ! middle)" using t by (simp add: CompareContact_tc_def)
      show ?thesis
        using "1.IH"(1)[OF True half_def middle_def c "1.prems"(1) b2] True c c'
        by (subst upper_bound_loop.simps, subst (2) upper_bound_loop.simps)
           (simp add: half_def middle_def Let_def)
    next
      case c: False
      then have c': "\<not> CompareContact_tc val (cs' ! middle)"
        using t by (simp add: CompareContact_tc_def)
      show ?thesis
        using "1.IH"(2)[OF True half_def middle_def c "1.prems"(1) b1] True c c'
        by (subst upper_bound_loop.simps, subst (2) upper_bound_loop.simps)
           (simp add: half_def middle_def Let_def)
    qed
  qed
qed

lemma scan_cong:
  assumes "map timestamp cs = map timestamp cs'"
  shows "lower_bound cs 0 (length cs) tBegin = lower_bound cs' 0 (length cs') tBegin"
    and "in_window cs (lower_bound cs 0 (length cs) tBegin) tEnd =
         in_window cs' (lower_bound cs' 0 (length cs') tBegin) tEnd"
    and "in_window cs (lower_bound cs 0 (length cs) tBegin) tEnd \<Longrightarrow>
         next_window cs (lower_bound cs 0 (length cs) tBegin) tBegin tEnd ingoing =
         next_window cs' (lower_bound cs' 0 (length cs') tBegin) tBegin tEnd ingoing"
proof -
  have len: "length cs' = length cs" using assms by (metis length_map)
  show lb: "lower_bound cs 0 (length cs) tBegin = lower_bound cs' 0 (length cs') tBegin"
    using lower_bound_loop_cong[OF assms, of 0 "length cs" tBegin] len
    by (simp add: lower_bound_def)
  let ?p = "lower_bound cs 0 (length cs) tBegin"
  have p: "?p \<le> length cs" by (rule lower_bound_le)
  show iw: "in_window cs ?p tEnd = in_window cs' (lower_bound cs' 0 (length cs') tBegin) tEnd"
    using timestamp_nth_eq[OF assms, of ?p] p len unfolding lb[symmetric]
    by (cases "?p = length cs") (auto simp: in_window_def)
  assume w: "in_window cs ?p tEnd"
  note ub = upper_bound_after[OF w p]
  have q: "upper_bound cs' ?p (length cs) tEnd = upper_bound cs ?p (length cs) tEnd"
    using upper_bound_loop_cong[OF assms, of ?p "length cs - ?p" tEnd] p
    by (simp add: upper_bound_def)
  have "upper_bound cs ?p (length cs) tEnd - 1 < length cs" using ub by auto
  then have "timestamp (cs ! (upper_bound cs ?p (length cs) tEnd - 1)) =
        timestamp (cs' ! (upper_bound cs ?p (length cs) tEnd - 1))"
    by (rule timestamp_nth_eq[OF assms])
  moreover have "timestamp (cs ! ?p) = timestamp (cs' ! ?p)"
    using w p by (intro timestamp_nth_eq[OF assms]) (simp add: in_window_def)
  ultimately show "next_window cs ?p tBegin tEnd ingoing =
         next_window cs' (lower_bound cs' 0 (length cs') tBegin) tBegin tEnd ingoing"
    unfolding lb[symmetric] by (simp add: next_window_def Let_def q len)
qed

subsection \<open>An index with and without its self-loop buckets\<close>

lemma rel_m_Nil: "rel_m node [] m' \<Longrightarrow> m' = []"
  by (simp add: rel_m_def sh_def without_def)

lemma rel_m_self: "rel_m node ((node, cs) # rest) m' \<Longrightarrow> rel_m node rest m'"
  by (simp add: rel_m_def without_def)

lemma rel_m_other:
  assumes "k \<noteq> node" and "rel_m node ((k, cs) # rest) m'"
  obtains cs' rest' where "m' = (k, cs') # rest'" "map timestamp cs' = map timestamp cs"
    "rel_m node rest rest'"
proof -
  from assms have "sh m' = (k, map timestamp cs) # sh (without node rest)"
    by (simp add: rel_m_def without_def sh_def)
  then obtain a rest' where m': "m' = a # rest'" "(fst a, map timestamp (snd a)) = (k, map timestamp cs)"
    "sh rest' = sh (without node rest)"
    by (auto simp: sh_def)
  then have "m' = (k, snd a) # rest'" "map timestamp (snd a) = map timestamp cs"
    "rel_m node rest rest'"
    by (cases a; auto simp: rel_m_def)+
  then show thesis by (rule that)
qed

lemma rel_data_vec_at:
  assumes "rel_data data data'"
  shows "(vec_at data k = None \<longrightarrow> vec_at data' k = None) \<and>
         (\<forall>m. vec_at data k = Some m \<longrightarrow> (\<exists>m'. vec_at data' k = Some m' \<and> rel_m k m m'))"
proof -
  have "rel_m k (data ! nat k) (data' ! nat k)" if "0 \<le> k" "k < int (length data)"
  proof -
    have a: "\<forall>i < length data. rel_m (int i) (data ! i) (data' ! i)"
      using assms by (simp add: rel_data_def)
    have "nat k < length data" using that by simp
    with a have "rel_m (int (nat k)) (data ! nat k) (data' ! nat k)" by blast
    then show ?thesis using that by simp
  qed
  moreover have "length data' = length data" using assms by (simp add: rel_data_def)
  ultimately show ?thesis by (auto simp: vec_at_def)
qed

lemma Visit_False_mono:
  assumes "vs_le ingoing vs vs'" and "Visit vs k tBegin tEnd ingoing = Some False"
  shows "Visit vs' k tBegin tEnd ingoing = Some False"
proof -
  have "length (visitedNodes vs') = length (visitedNodes vs)"
    using assms(1) by (simp add: vs_le_def)
  then have "vec_at (visitedNodes vs') k \<noteq> None"
    using assms(2) by (auto simp: Visit_def vec_at_def split: option.splits if_splits)
  then have "Visit vs' k tBegin tEnd ingoing \<noteq> None"
    by (auto simp: Visit_def split: option.splits)
  then obtain b where "Visit vs' k tBegin tEnd ingoing = Some b"
    by blast
  with Visit_vs_le[OF assms(1), of k tBegin tEnd] assms(2) show ?thesis
    by (cases b) auto
qed

lemma degree_loop_without:
  "rel_m node m m' \<Longrightarrow> degree_loop m node tBegin tEnd acc = degree_loop m' node tBegin tEnd acc"
proof (induction m arbitrary: m' acc)
  case Nil
  then show ?case using rel_m_Nil[of node m'] by simp
next
  case (Cons a m)
  obtain k cs where a: "a = (k, cs)" by (cases a)
  show ?case
  proof (cases "k = node")
    case True
    with Cons.prems a have "rel_m node m m'" by (auto dest: rel_m_self)
    from Cons.IH[OF this] True a show ?thesis by simp
  next
    case False
    from rel_m_other[OF False Cons.prems[unfolded a]] obtain cs' rest' where
      m': "m' = (k, cs') # rest'" "map timestamp cs' = map timestamp cs" "rel_m node m rest'"
      by blast
    from scan_cong(1,2)[OF m'(2)[symmetric]] Cons.IH[OF m'(3)] False a m'(1)
    show ?thesis by (simp add: Let_def)
  qed
qed

lemma cc_loop_without:
  "rel_data data data' \<Longrightarrow> rel_m node m m' \<Longrightarrow>
   Visit vs node tBegin tEnd ingoing = Some False \<Longrightarrow>
   cc_loop data m tBegin tEnd vs ingoing = cc_loop data' m' tBegin tEnd vs ingoing"
proof (induction data m tBegin tEnd vs ingoing arbitrary: m' node rule: cc_loop.induct)
  case (1 data tBegin tEnd vs ingoing)
  then show ?case using rel_m_Nil[of node m'] by simp
next
  case (2 data k cs rest tBegin tEnd vs ingoing)
  note rd = "2.prems"(1) and blocked = "2.prems"(3)
  define p where "p = lower_bound cs 0 (length cs) tBegin"
  define w where "w = next_window cs p tBegin tEnd ingoing"
  show ?case
  proof (cases "k = node")
    case True
    then have r: "rel_m node rest m'" using "2.prems"(2) by (auto dest: rel_m_self)
    have "cc_loop data ((k, cs) # rest) tBegin tEnd vs ingoing =
          cc_loop data rest tBegin tEnd vs ingoing"
      using blocked True by simp
    also have "\<dots> = cc_loop data' m' tBegin tEnd vs ingoing"
      using "2.IH"(4)[OF blocked[unfolded True[symmetric]] _ rd r blocked] by simp
    finally show ?thesis .
  next
    case False
    from rel_m_other[OF False "2.prems"(2)] obtain cs' rest' where
      m': "m' = (k, cs') # rest'" and ts: "map timestamp cs' = map timestamp cs" and
      r: "rel_m node rest rest'"
      by blast
    note sc = scan_cong(1)[OF ts[symmetric], of tBegin] scan_cong(2)[OF ts[symmetric], of tBegin tEnd]
      scan_cong(3)[OF ts[symmetric], of tBegin tEnd]
    show ?thesis
    proof (cases "Visit vs k tBegin tEnd ingoing")
      case None
      then show ?thesis by (simp add: m')
    next
      case (Some go)
      show ?thesis
      proof (cases "go \<and> in_window cs p tEnd")
        case False
        then have "cc_loop data ((k, cs) # rest) tBegin tEnd vs ingoing =
              cc_loop data rest tBegin tEnd vs ingoing"
          using Some by (auto simp: Let_def p_def)
        moreover have "cc_loop data' m' tBegin tEnd vs ingoing =
              cc_loop data' rest' tBegin tEnd vs ingoing"
          using False Some sc(1,2) by (auto simp: m' Let_def p_def)
        moreover have "cc_loop data rest tBegin tEnd vs ingoing =
              cc_loop data' rest' tBegin tEnd vs ingoing"
          using False "2.IH"(3)[OF Some _ p_def _ rd r blocked] "2.IH"(4)[OF Some _ rd r blocked]
          by (cases go) auto
        ultimately show ?thesis by simp
      next
        case True
        then have g: go and iw: "in_window cs p tEnd" by simp_all
        have iw': "in_window cs' (lower_bound cs' 0 (length cs') tBegin) tEnd"
          using iw sc(2) by (simp add: p_def)
        have w': "next_window cs' (lower_bound cs' 0 (length cs') tBegin) tBegin tEnd ingoing = w"
          using sc(3)[OF iw[unfolded p_def], of ingoing] by (simp add: w_def p_def)
        show ?thesis
        proof (cases "Update vs k (fst w) (snd w) ingoing")
          case None
          then show ?thesis
            using Some g iw iw' w'
            by (simp add: m' Let_def p_def[symmetric] w_def[symmetric])
        next
          case u: (Some vs1)
          show ?thesis
          proof (cases "vec_at data k")
            case None
            then have "vec_at data' k = None" using rel_data_vec_at[OF rd, of k] by simp
            with None show ?thesis
              using Some g iw iw' w' u
              by (simp add: m' Let_def p_def[symmetric] w_def[symmetric])
          next
            case v: (Some mk)
            then obtain mk' where v': "vec_at data' k = Some mk'" and rk: "rel_m k mk mk'"
              using rel_data_vec_at[OF rd, of k] by blast
            have inner: "cc_loop data mk (fst w) (snd w) vs1 ingoing =
                         cc_loop data' mk' (fst w) (snd w) vs1 ingoing"
              by (rule "2.IH"(1)[OF Some g p_def iw w_def u v rd rk Visit_after_Update[OF u]])
            show ?thesis
            proof (cases "cc_loop data mk (fst w) (snd w) vs1 ingoing")
              case None
              moreover have "cc_loop data' mk' (fst w) (snd w) vs1 ingoing = None"
                using inner None by simp
              ultimately show ?thesis
                using Some g iw iw' w' u v v'
                by (simp add: m' Let_def p_def[symmetric] w_def[symmetric])
            next
              case i: (Some vs2)
              have "vs_le ingoing vs vs2"
                using vs_le_trans[OF Update_vs_le[OF u] cc_loop_vs_le[OF i]] .
              then have b2: "Visit vs2 node tBegin tEnd ingoing = Some False"
                using blocked by (rule Visit_False_mono)
              have "cc_loop data rest tBegin tEnd vs2 ingoing =
                    cc_loop data' rest' tBegin tEnd vs2 ingoing"
                by (rule "2.IH"(2)[OF Some g p_def iw w_def u v i rd r b2])
              moreover have i': "cc_loop data' mk' (fst w) (snd w) vs1 ingoing = Some vs2"
                using inner i by simp
              ultimately show ?thesis
                using Some g iw iw' w' u v v' i
                by (simp add: m' Let_def p_def[symmetric] w_def[symmetric])
            qed
          qed
        qed
      qed
    qed
  qed
qed

lemma contactChain_without:
  assumes "rel_data data data'"
  shows "contactChain data node tBegin tEnd vs ingoing =
         contactChain data' node tBegin tEnd vs ingoing"
proof (cases "Update vs node tBegin tEnd ingoing")
  case None
  then show ?thesis by (simp add: contactChain_def)
next
  case u: (Some vs1)
  show ?thesis
  proof (cases "vec_at data node")
    case None
    then have "vec_at data' node = None" using rel_data_vec_at[OF assms, of node] by simp
    with None u show ?thesis by (simp add: contactChain_def)
  next
    case (Some m)
    then obtain m' where m': "vec_at data' node = Some m'" "rel_m node m m'"
      using rel_data_vec_at[OF assms, of node] by blast
    from cc_loop_without[OF assms m'(2) Visit_after_Update[OF u]] Some m'(1) u
    show ?thesis by (simp add: contactChain_def)
  qed
qed

lemma degree_without:
  assumes "rel_data data data'"
  shows "degree data node tBegin tEnd = degree data' node tBegin tEnd"
proof (cases "vec_at data node")
  case None
  then have "vec_at data' node = None" using rel_data_vec_at[OF assms, of node] by simp
  with None show ?thesis by (simp add: degree_def)
next
  case (Some m)
  then obtain m' where m': "vec_at data' node = Some m'" "rel_m node m m'"
    using rel_data_vec_at[OF assms, of node] by blast
  from degree_loop_without[OF m'(2)] Some m'(1) show ?thesis by (simp add: degree_def)
qed

lemma networkSummary_loop_without:
  assumes "rel_data ingoing ingoing'" and "rel_data outgoing outgoing'"
  shows "networkSummary_loop ingoing outgoing root inBegin inEnd outBegin outEnd n is acc =
         networkSummary_loop ingoing' outgoing' root inBegin inEnd outBegin outEnd n is acc"
proof (induction "is" arbitrary: acc)
  case Nil
  then show ?case by simp
next
  case (Cons i "is")
  have "networkSummary_root ingoing outgoing root inBegin inEnd outBegin outEnd n i acc =
        networkSummary_root ingoing' outgoing' root inBegin inEnd outBegin outEnd n i acc"
    unfolding networkSummary_root_def
      contactChain_without[OF assms(1)] contactChain_without[OF assms(2)]
      degree_without[OF assms(1)] degree_without[OF assms(2)]
    by (rule refl)
  with Cons.IH show ?case by (simp split: option.splits)
qed

subsection \<open>Building the index without the self-loop rows\<close>

lemma without_map_set_self: "without z (map_set z v m) = without z m"
  by (induction z v m rule: map_set.induct) (auto simp: without_def)

lemma map_set_least:
  "\<forall>kc \<in> set m. k < fst kc \<Longrightarrow> map_set k v m = (k, v) # m"
  by (cases m) auto

lemma without_map_set_other:
  "sorted_wrt (<) (map fst m) \<Longrightarrow> k \<noteq> i \<Longrightarrow>
   without i (map_set k v m) = map_set k v (without i m)"
proof (induction k v m rule: map_set.induct)
  case (1 k v)
  then show ?case by (simp add: without_def)
next
  case (2 k v k' v' m)
  show ?case
  proof (cases "k' = i")
    case False
    with 2 show ?thesis by (auto simp: without_def)
  next
    case True
    have gt: "\<forall>kc \<in> set m. k' < fst kc" using "2.prems"(1) by auto
    show ?thesis
    proof (cases "k < k'")
      case lt: True
      then have "\<forall>kc \<in> set (without i m). k < fst kc"
        using gt by (auto simp: without_def)
      then have "map_set k v (without i m) = (k, v) # without i m" by (rule map_set_least)
      with True lt "2.prems"(2) show ?thesis by (simp add: without_def)
    next
      case False
      with True "2.prems" "2.IH" show ?thesis by (auto simp: without_def)
    qed
  qed
qed

lemma sh_map_set: "sh (map_set k v m) = map_set k (map timestamp v) (sh m)"
  by (induction k v m rule: map_set.induct) (auto simp: sh_def)

lemma map_of_without: "k \<noteq> i \<Longrightarrow> map_of (without i m) k = map_of m k"
  by (induction m) (auto simp: without_def)

lemma map_of_sh: "map_of (sh m) k = map_option (map timestamp) (map_of m k)"
  by (induction m) (auto simp: sh_def)

lemma sh_push:
  "sh (push_back_at k c m) =
     map_set k ((case map_of (sh m) k of None \<Rightarrow> [] | Some x \<Rightarrow> x) @ [timestamp c]) (sh m)"
  by (simp add: push_back_at_def sh_map_set map_of_sh split: option.splits)

lemma rel_m_push:
  assumes "rel_m i m m'" and "k \<noteq> i" and "sorted_wrt (<) (map fst m)"
    and "timestamp c = timestamp c'"
  shows "rel_m i (push_back_at k c m) (push_back_at k c' m')"
proof -
  have "without i (push_back_at k c m) = push_back_at k c (without i m)"
    using assms(2,3) by (simp add: push_back_at_def without_map_set_other map_of_without)
  then have "sh (without i (push_back_at k c m)) = sh (push_back_at k c (without i m))"
    by simp
  also have "\<dots> = sh (push_back_at k c' m')"
    using assms(1,4) by (simp add: sh_push rel_m_def)
  finally show ?thesis by (simp add: rel_m_def)
qed

lemma rel_m_push_self: "rel_m z m m' \<Longrightarrow> rel_m z (push_back_at z c m) m'"
  by (simp add: rel_m_def push_back_at_def without_map_set_self)

lemma rel_data_update:
  "rel_data data data' \<Longrightarrow> i < length data \<Longrightarrow> rel_m (int i) x x' \<Longrightarrow>
   rel_data (data[i := x]) (data'[i := x'])"
  by (auto simp: rel_data_def nth_list_update)

lemma rel_data_update_left:
  "rel_data data data' \<Longrightarrow> i < length data \<Longrightarrow> rel_m (int i) x (data' ! i) \<Longrightarrow>
   rel_data (data[i := x]) data'"
  by (auto simp: rel_data_def nth_list_update)

lemma build_step_some:
  assumes "build_step src dst ts j io = Some io1"
  obtains mi mo where
    "j < length src" "j < length dst"
    "vec_at (fst io) (dst ! j - 1) = Some mi" "vec_at (snd io) (src ! j - 1) = Some mo"
    "io1 = ((fst io)[nat (dst ! j - 1) := push_back_at (src ! j - 1)
                \<lparr>rowid = int j, ident = src ! j - 1, timestamp = ts ! j\<rparr> mi],
            (snd io)[nat (src ! j - 1) := push_back_at (dst ! j - 1)
                \<lparr>rowid = int j, ident = dst ! j - 1, timestamp = ts ! j\<rparr> mo])"
  using assms by (auto simp: build_step_def Let_def split: if_splits option.splits)

lemma vec_at_nat:
  "vec_at v i = Some x \<Longrightarrow> nat i < length v \<and> v ! nat i = x \<and> int (nat i) = i"
  by (auto simp: vec_at_def split: if_splits)

lemma build_loop_without:
  "build_loop src dst ts js io = Some io1 \<Longrightarrow>
   map (\<lambda>j'. keep ! j') js' = filter (\<lambda>j. src ! j \<noteq> dst ! j) js \<Longrightarrow>
   \<forall>j' \<in> set js'. j' < length keep \<Longrightarrow>
   src' = map (\<lambda>j. src ! j) keep \<Longrightarrow> dst' = map (\<lambda>j. dst ! j) keep \<Longrightarrow>
   ts' = map (\<lambda>j. ts ! j) keep \<Longrightarrow>
   rel_data (fst io) (fst io') \<Longrightarrow> rel_data (snd io) (snd io') \<Longrightarrow>
   \<forall>m \<in> set (fst io) \<union> set (snd io). sorted_wrt (<) (map fst m) \<Longrightarrow>
   \<exists>io1'. build_loop src' dst' ts' js' io' = Some io1' \<and>
          rel_data (fst io1) (fst io1') \<and> rel_data (snd io1) (snd io1')"
proof (induction js arbitrary: js' io io')
  case Nil
  then show ?case by simp
next
  case (Cons j js)
  from Cons.prems(1) obtain ioa where
    st: "build_step src dst ts j io = Some ioa" and lp: "build_loop src dst ts js ioa = Some io1"
    by (auto split: option.splits)
  from st obtain mi mo where
    mi: "vec_at (fst io) (dst ! j - 1) = Some mi" and mo: "vec_at (snd io) (src ! j - 1) = Some mo" and
    ioa: "ioa = ((fst io)[nat (dst ! j - 1) := push_back_at (src ! j - 1)
                \<lparr>rowid = int j, ident = src ! j - 1, timestamp = ts ! j\<rparr> mi],
            (snd io)[nat (src ! j - 1) := push_back_at (dst ! j - 1)
                \<lparr>rowid = int j, ident = dst ! j - 1, timestamp = ts ! j\<rparr> mo])"
    by (rule build_step_some)
  note ni = vec_at_nat[OF mi] and no = vec_at_nat[OF mo]
  note strict1 = build_step_strict[OF st Cons.prems(9)]
  have smi: "sorted_wrt (<) (map fst mi)" and smo: "sorted_wrt (<) (map fst mo)"
    using Cons.prems(9) vec_at_mem[OF mi] vec_at_mem[OF mo] by auto
  show ?case
  proof (cases "src ! j \<noteq> dst ! j")
    case False
    then have z: "src ! j - 1 = dst ! j - 1" by simp
    have js': "map (\<lambda>j'. keep ! j') js' = filter (\<lambda>j. src ! j \<noteq> dst ! j) js"
      using Cons.prems(2) False by simp
    have "rel_m (int (nat (dst ! j - 1))) mi (fst io' ! nat (dst ! j - 1))"
      using Cons.prems(7) ni by (auto simp: rel_data_def)
    then have ri: "rel_m (int (nat (dst ! j - 1)))
        (push_back_at (src ! j - 1) \<lparr>rowid = int j, ident = src ! j - 1, timestamp = ts ! j\<rparr> mi)
        (fst io' ! nat (dst ! j - 1))"
      using ni z by (simp add: rel_m_push_self)
    have "rel_m (int (nat (src ! j - 1))) mo (snd io' ! nat (src ! j - 1))"
      using Cons.prems(8) no by (auto simp: rel_data_def)
    then have ro: "rel_m (int (nat (src ! j - 1)))
        (push_back_at (dst ! j - 1) \<lparr>rowid = int j, ident = dst ! j - 1, timestamp = ts ! j\<rparr> mo)
        (snd io' ! nat (src ! j - 1))"
      using no z by (simp add: rel_m_push_self)
    have "rel_data (fst ioa) (fst io')" "rel_data (snd ioa) (snd io')"
      unfolding ioa fst_conv snd_conv
      using rel_data_update_left[OF Cons.prems(7) conjunct1[OF ni] ri]
        rel_data_update_left[OF Cons.prems(8) conjunct1[OF no] ro]
      by simp_all
    from Cons.IH[OF lp js' Cons.prems(3,4,5,6) this strict1] show ?thesis .
  next
    case True
    then have ne: "src ! j - 1 \<noteq> dst ! j - 1" by simp
    from Cons.prems(2) True obtain j' js'' where
      js': "js' = j' # js''" and kj: "keep ! j' = j" and
      rest: "map (\<lambda>j'. keep ! j') js'' = filter (\<lambda>j. src ! j \<noteq> dst ! j) js"
      by (cases js') auto
    have lt: "j' < length keep" and lts: "\<forall>j' \<in> set js''. j' < length keep"
      using Cons.prems(3) js' by simp_all
    have vals: "src' ! j' = src ! j" "dst' ! j' = dst ! j" "ts' ! j' = ts ! j"
      "j' < length src'" "j' < length dst'"
      using lt kj Cons.prems(4,5,6) by simp_all
    have li: "length (fst io') = length (fst io)" and lo: "length (snd io') = length (snd io)"
      using Cons.prems(7,8) by (simp_all add: rel_data_def)
    obtain mi' where mi': "vec_at (fst io') (dst ! j - 1) = Some mi'"
      "rel_m (dst ! j - 1) mi mi'"
      using rel_data_vec_at[OF Cons.prems(7), of "dst ! j - 1"] mi by blast
    obtain mo' where mo': "vec_at (snd io') (src ! j - 1) = Some mo'"
      "rel_m (src ! j - 1) mo mo'"
      using rel_data_vec_at[OF Cons.prems(8), of "src ! j - 1"] mo by blast
    define ioa' where "ioa' = ((fst io')[nat (dst ! j - 1) := push_back_at (src ! j - 1)
                \<lparr>rowid = int j', ident = src ! j - 1, timestamp = ts ! j\<rparr> mi'],
            (snd io')[nat (src ! j - 1) := push_back_at (dst ! j - 1)
                \<lparr>rowid = int j', ident = dst ! j - 1, timestamp = ts ! j\<rparr> mo'])"
    have st': "build_step src' dst' ts' j' io' = Some ioa'"
      using vals mi'(1) mo'(1) by (simp add: build_step_def Let_def ioa'_def)
    have ri: "rel_m (int (nat (dst ! j - 1)))
        (push_back_at (src ! j - 1) \<lparr>rowid = int j, ident = src ! j - 1, timestamp = ts ! j\<rparr> mi)
        (push_back_at (src ! j - 1) \<lparr>rowid = int j', ident = src ! j - 1, timestamp = ts ! j\<rparr> mi')"
      using rel_m_push[OF mi'(2) ne smi] ni by simp
    have ro: "rel_m (int (nat (src ! j - 1)))
        (push_back_at (dst ! j - 1) \<lparr>rowid = int j, ident = dst ! j - 1, timestamp = ts ! j\<rparr> mo)
        (push_back_at (dst ! j - 1) \<lparr>rowid = int j', ident = dst ! j - 1, timestamp = ts ! j\<rparr> mo')"
      using rel_m_push[OF mo'(2) ne[symmetric] smo] no by simp
    have "rel_data (fst ioa) (fst ioa')" "rel_data (snd ioa) (snd ioa')"
      unfolding ioa ioa'_def fst_conv snd_conv
      using rel_data_update[OF Cons.prems(7) conjunct1[OF ni] ri]
        rel_data_update[OF Cons.prems(8) conjunct1[OF no] ro]
      by simp_all
    from Cons.IH[OF lp rest lts Cons.prems(4,5,6) this strict1] obtain io1' where
      "build_loop src' dst' ts' js'' ioa' = Some io1'"
      "rel_data (fst io1) (fst io1')" "rel_data (snd io1) (snd io1')"
      by blast
    then show ?thesis using st' js' by auto
  qed
qed

lemma insort_key_cong:
  "f x = g x \<Longrightarrow> \<forall>y \<in> set ys. f y = g y \<Longrightarrow> insort_key f x ys = insort_key g x ys"
  by (induction ys) auto

lemma set_insort_key_eq: "set (insort_key f x ys) = insert x (set ys)"
  by (induction ys) auto

lemma sort_key_cong_on:
  "\<forall>x \<in> set xs. f x = g x \<Longrightarrow> sort_key f xs = sort_key g xs"
proof (induction xs)
  case Nil
  then show ?case by simp
next
  case (Cons x xs)
  then have "sort_key f xs = sort_key g xs" by simp
  with Cons.prems show ?case
    using insort_key_cong[of f x g "sort_key g xs"] by simp
qed

lemma map_insort_key:
  "map f (insort_key (\<lambda>x. g (f x)) x xs) = insort_key g (f x) (map f xs)"
  by (induction xs) auto

lemma map_sort_key:
  "map f (sort_key (\<lambda>x. g (f x)) xs) = sort_key g (map f xs)"
  by (induction xs) (simp_all add: map_insort_key)

lemma order_without:
  assumes "keep = filter P [0..<length ts]" and "ts' = map (\<lambda>j. ts ! j) keep"
  shows "map (\<lambda>j'. keep ! j') (R_orderVector ts') = filter P (R_orderVector ts)"
proof -
  have "sort_key (\<lambda>j'. ts' ! j') [0..<length keep] =
        sort_key (\<lambda>j'. ts ! (keep ! j')) [0..<length keep]"
    by (rule sort_key_cong_on) (simp add: assms(2))
  then have "map (\<lambda>j'. keep ! j') (R_orderVector ts') =
        map (\<lambda>j'. keep ! j') (sort_key (\<lambda>j'. ts ! (keep ! j')) [0..<length keep])"
    by (simp add: R_orderVector_def assms(2))
  also have "\<dots> = sort_key (\<lambda>j. ts ! j) (map (\<lambda>j'. keep ! j') [0..<length keep])"
    by (rule map_sort_key)
  also have "map (\<lambda>j'. keep ! j') [0..<length keep] = keep"
    by (rule map_nth)
  also have "sort_key (\<lambda>j. ts ! j) keep = filter P (sort_key (\<lambda>j. ts ! j) [0..<length ts])"
    by (simp add: assms(1) filter_sort)
  finally show ?thesis by (simp add: R_orderVector_def)
qed

lemma rel_data_empty: "rel_data (empty_lookup n) (empty_lookup n)"
  by (simp add: rel_data_def empty_lookup_def rel_m_def without_def)

text \<open>
  C7.  If the network summary of an input is defined, the network summary of the same
  input without its self-loop rows is the same: the same degrees and the same chain
  sizes for every root and both directions.
\<close>

theorem self_loops_irrelevant:
  assumes "networkSummary malloc_ok src dst ts root inBegin inEnd outBegin outEnd n = Inr r"
    and "remove_self_loops src dst ts = (src', dst', ts')"
  shows "networkSummary malloc_ok src' dst' ts' root inBegin inEnd outBegin outEnd n = Inr r"
proof -
  define keep where "keep = filter (\<lambda>j. src ! j \<noteq> dst ! j) [0..<length ts]"
  have d: "src' = map (\<lambda>j. src ! j) keep" "dst' = map (\<lambda>j. dst ! j) keep"
    "ts' = map (\<lambda>j. ts ! j) keep"
    using assms(2) by (simp_all add: remove_self_loops_def keep_def Let_def)
  from assms(1) obtain ingoing outgoing where
    n: "\<not> n < 0" and ok: malloc_ok and
    b: "build_loop src dst ts (R_orderVector ts) (empty_lookup n, empty_lookup n)
          = Some (ingoing, outgoing)" and
    l: "networkSummary_loop ingoing outgoing root inBegin inEnd outBegin outEnd n [0..<length root]
          \<lparr>inDegree = [], outDegree = [], ingoingContactChain = [], outgoingContactChain = []\<rparr>
          = Some r"
    by (auto simp: networkSummary_def buildContactsLookup_def split: if_splits option.splits)
  have in_keep: "\<forall>j' \<in> set (R_orderVector ts'). j' < length keep"
    by (simp add: R_orderVector_def d(3))
  have e: "\<forall>m \<in> set (fst (empty_lookup n, empty_lookup n)) \<union>
             set (snd (empty_lookup n, empty_lookup n)). sorted_wrt (<) (map fst m)"
    by (simp add: empty_lookup_def)
  from build_loop_without[OF b order_without[OF keep_def d(3)] in_keep d,
      of "(empty_lookup n, empty_lookup n)"] e
  obtain io1' where
    b': "build_loop src' dst' ts' (R_orderVector ts') (empty_lookup n, empty_lookup n) = Some io1'" and
    r: "rel_data ingoing (fst io1')" "rel_data outgoing (snd io1')"
    by (auto simp: rel_data_empty)
  from networkSummary_loop_without[OF r] l
  have "networkSummary_loop (fst io1') (snd io1') root inBegin inEnd outBegin outEnd n
          [0..<length root]
          \<lparr>inDegree = [], outDegree = [], ingoingContactChain = [], outgoingContactChain = []\<rparr>
          = Some r"
    by simp
  with n ok b' show ?thesis
    by (cases io1') (simp add: networkSummary_def buildContactsLookup_def)
qed

theorem self_loops_irrelevant_witness:
  "networkSummary True [1, 2, 1, 1] [2, 3, 3, 1] [10, 20, 5, 7] [1, 2, 3] [0, 0, 0] [100, 100, 100]
      [0, 0, 0] [100, 100, 100] 3
     = Inr \<lparr>inDegree = [0, 1, 2], outDegree = [2, 1, 0],
            ingoingContactChain = [0, 1, 2], outgoingContactChain = [2, 1, 0]\<rparr> \<and>
   remove_self_loops [1, 2, 1, 1] [2, 3, 3, 1] [10, 20, 5, 7] = ([1, 2, 1], [2, 3, 3], [10, 20, 5]) \<and>
   networkSummary True [1, 2, 1] [2, 3, 3] [10, 20, 5] [1, 2, 3] [0, 0, 0] [100, 100, 100]
      [0, 0, 0] [100, 100, 100] 3
     = Inr \<lparr>inDegree = [0, 1, 2], outDegree = [2, 1, 0],
            ingoingContactChain = [0, 1, 2], outgoingContactChain = [2, 1, 0]\<rparr>"
proof -
  have s: "networkSummary True [1, 2, 1, 1] [2, 3, 3, 1] [10, 20, 5, 7] [1, 2, 3] [0, 0, 0]
      [100, 100, 100] [0, 0, 0] [100, 100, 100] 3
     = Inr \<lparr>inDegree = [0, 1, 2], outDegree = [2, 1, 0],
            ingoingContactChain = [0, 1, 2], outgoingContactChain = [2, 1, 0]\<rparr>"
    by code_simp
  have f: "remove_self_loops [1, 2, 1, 1] [2, 3, 3, 1] [10, 20, 5, 7]
             = ([1, 2, 1], [2, 3, 3], [10, 20, 5])"
    by code_simp
  from self_loops_irrelevant[OF s f] s f show ?thesis by blast
qed

end

